theory Spec2Isabelle
  imports Complex_Main "HOL-Library.Sublist"
begin

chapter \<open>The attack map dashboard: event cache, aggregation, connection\<close>

text \<open>
  A shallow embedding of the client side of the attack map: the persistent event cache
  with its two backends, the aggregation of attack events into a timeline, an hourly
  heatmap and counters, the restoration of the cache at startup, and the monitoring
  and re-establishing of the WebSocket connection. The model comes first, function by
  function as \<open>static/dashboard.js\<close> and the map script have them; the properties
  follow.
\<close>

section \<open>JavaScript values\<close>

text \<open>
  A property of a JavaScript object that may be missing is an \<open>option\<close>: \<open>None\<close> is
  \<open>undefined\<close>. The code tests such properties for truthiness (\<open>a || b\<close>, \<open>a && b\<close>,
  \<open>if (a)\<close>, \<open>!a\<close>): a number is falsy when it is missing or zero, a string when it is
  missing or empty. Times are integer milliseconds since the epoch, as \<open>Date.now()\<close>
  returns them; every function that reads the clock takes the reading as \<open>now\<close>.
\<close>

definition truthy_num :: "int option \<Rightarrow> bool" where
  "truthy_num v = (case v of None \<Rightarrow> False | Some n \<Rightarrow> n \<noteq> 0)"


definition truthy_str :: "string option \<Rightarrow> bool" where
  "truthy_str v = (case v of None \<Rightarrow> False | Some s \<Rightarrow> s \<noteq> [])"

definition or_num :: "int option \<Rightarrow> int option \<Rightarrow> int option" where
  "or_num a b = (if truthy_num a then a else b)"

definition or_str :: "string option \<Rightarrow> string option \<Rightarrow> string option" where
  "or_str a b = (if truthy_str a then a else b)"

text \<open>\<open>xs.slice(-n)\<close> for a positive \<open>n\<close>: the last \<open>n\<close> elements, all of them when
  there are fewer.\<close>

definition slice_last :: "nat \<Rightarrow> 'a list \<Rightarrow> 'a list" where
  "slice_last n xs = drop (length xs - n) xs"


section \<open>Events\<close>

text \<open>
  The attack event object, with the properties the modelled functions read or write.
  The transport adapter (\<open>messageHandlers.Traffic\<close>) builds it with \<open>ip\<close>, \<open>source_ip\<close>
  and \<open>src_ip\<close> all set to the sender's address; \<open>time\<close> and \<open>date\<close> are the
  alternative time properties that the timeline falls back to.
\<close>

record event =
  ip :: "string option"
  source_ip :: "string option"
  country :: "string option"
  protocol :: "string option"
  honeypot :: "string option"
  ip_rep :: "string option"
  iso_code :: "string option"
  country_code :: "string option"
  source_lat :: "real option"
  source_lng :: "real option"
  timestamp :: "int option"
  time :: "int option"
  date :: "int option"
  cached_at :: "int option"
  restored :: bool

text \<open>An object with no property set; the examples below build their events from it.\<close>

definition blankEvent :: event where
  "blankEvent = \<lparr> ip = None, source_ip = None, country = None, protocol = None,
     honeypot = None, ip_rep = None, iso_code = None, country_code = None,
     source_lat = None, source_lng = None, timestamp = None, time = None, date = None,
     cached_at = None, restored = False \<rparr>"


section \<open>AttackCache: the persistent event store\<close>

text \<open>
  \<open>class AttackCache\<close> of \<open>static/dashboard.js\<close> (lines 10 to 297). The IndexedDB object store
  \<open>attacks\<close> is the list of its records in primary-key order (the key is
  auto-incremented, so this is the order of insertion); the LocalStorage backend is one
  serialized document under one key, \<open>None\<close> while the key is unset. Storage
  operations are modelled where they succeed: a failing one is caught and logged by the
  caller and leaves the store as it was.
\<close>

definition retentionPeriod :: int where
  "retentionPeriod = 24 * 60 * 60 * 1000"

definition maxEvents :: nat where
  "maxEvents = 10000"

datatype storageType = indexeddb | localstorage

record cacheDoc =
  events :: "event list"
  lastCleanup :: "int option"
  version :: "nat option"

record AttackCache =
  storageType :: "storageType option"
  db :: "event list"
  localStorageItem :: "cacheDoc option"

text \<open>\<open>JSON.parse(localStorage.getItem(key) || '{"events":[]}')\<close>\<close>

definition loadDoc :: "AttackCache \<Rightarrow> cacheDoc" where
  "loadDoc c = (case localStorageItem c of
      None \<Rightarrow> \<lparr> events = [], lastCleanup = None, version = None \<rparr>
    | Some d \<Rightarrow> d)"

text \<open>
  The browser's key ranges over the \<open>timestamp\<close> index: both bounds are closed unless
  asked otherwise, and the code never asks. A record without a \<open>timestamp\<close> has no
  entry in the index.
\<close>

definition upperBound :: "int \<Rightarrow> int \<Rightarrow> bool" where
  "upperBound x k = (k \<le> x)"

definition lowerBound :: "int \<Rightarrow> int \<Rightarrow> bool" where
  "lowerBound x k = (x \<le> k)"

definition inIndexRange :: "(int \<Rightarrow> bool) \<Rightarrow> event \<Rightarrow> bool" where
  "inIndexRange rng e = (case timestamp e of None \<Rightarrow> False | Some k \<Rightarrow> rng k)"

definition storeEventIndexedDB :: "event \<Rightarrow> AttackCache \<Rightarrow> AttackCache" where
  "storeEventIndexedDB e c = c\<lparr> db := db c @ [e] \<rparr>"

definition storeEventLocalStorage :: "event \<Rightarrow> AttackCache \<Rightarrow> AttackCache" where
  "storeEventLocalStorage e c =
     (let cache = loadDoc c;
          pushed = events cache @ [e];
          kept = (if length pushed > maxEvents then slice_last maxEvents pushed else pushed)
      in c\<lparr> localStorageItem := Some (cache\<lparr> events := kept \<rparr>) \<rparr>)"

text \<open>\<open>storeEvent\<close> builds a new object from the event's properties and stores that
  one; the second component of the result is the object the caller passed, as the call
  leaves it.\<close>

definition eventToStore :: "int \<Rightarrow> event \<Rightarrow> event" where
  "eventToStore now e =
     e\<lparr> timestamp := or_num (timestamp e) (Some now), cached_at := Some now \<rparr>"

definition storeEvent :: "int \<Rightarrow> event \<Rightarrow> AttackCache \<Rightarrow> AttackCache \<times> event" where
  "storeEvent now e c =
     (if storageType c = Some indexeddb
      then (storeEventIndexedDB (eventToStore now e) c, e)
      else (storeEventLocalStorage (eventToStore now e) c, e))"

text \<open>\<open>index.getAll(range)\<close> answers in index order: by \<open>timestamp\<close>, records of equal
  \<open>timestamp\<close> by primary key.\<close>

definition getStoredEventsIndexedDB :: "int \<Rightarrow> AttackCache \<Rightarrow> event list" where
  "getStoredEventsIndexedDB now c =
     (let cutoff = now - retentionPeriod
      in sort_key (\<lambda>e. the (timestamp e)) (filter (inIndexRange (lowerBound cutoff)) (db c)))"

definition getStoredEventsLocalStorage :: "int \<Rightarrow> AttackCache \<Rightarrow> event list" where
  "getStoredEventsLocalStorage now c =
     (let cache = loadDoc c; cutoff = now - retentionPeriod
      in filter (\<lambda>e. truthy_num (timestamp e) \<and> the (timestamp e) > cutoff) (events cache))"

definition getStoredEvents :: "int \<Rightarrow> AttackCache \<Rightarrow> event list" where
  "getStoredEvents now c =
     (if storageType c = Some indexeddb then getStoredEventsIndexedDB now c
      else getStoredEventsLocalStorage now c)"

text \<open>The cursor of \<open>cleanupIndexedDB\<close> visits the records of the range and deletes
  each one it visits.\<close>

definition cleanupIndexedDB :: "int \<Rightarrow> AttackCache \<Rightarrow> AttackCache" where
  "cleanupIndexedDB now c =
     (let cutoff = now - retentionPeriod
      in c\<lparr> db := filter (\<lambda>e. \<not> inIndexRange (upperBound cutoff) e) (db c) \<rparr>)"

definition cleanupLocalStorage :: "int \<Rightarrow> AttackCache \<Rightarrow> AttackCache" where
  "cleanupLocalStorage now c =
     (let cache = loadDoc c; cutoff = now - retentionPeriod;
          recent = filter (\<lambda>e. truthy_num (timestamp e) \<and> the (timestamp e) > cutoff) (events cache);
          kept = (if length recent > maxEvents then slice_last maxEvents recent else recent)
      in c\<lparr> localStorageItem := Some (cache\<lparr> events := kept, lastCleanup := Some now \<rparr>) \<rparr>)"

definition cleanup :: "int \<Rightarrow> AttackCache \<Rightarrow> AttackCache" where
  "cleanup now c =
     (if storageType c = Some indexeddb then cleanupIndexedDB now c
      else cleanupLocalStorage now c)"

text \<open>The events a backend holds, and a run of \<open>storeEvent\<close> calls, each with the
  clock reading of its call.\<close>

definition storedEvents :: "AttackCache \<Rightarrow> event list" where
  "storedEvents c = (if storageType c = Some indexeddb then db c else events (loadDoc c))"

fun storeAll :: "(int \<times> event) list \<Rightarrow> AttackCache \<Rightarrow> AttackCache" where
  "storeAll [] c = c"
| "storeAll ((now, e) # rest) c = storeAll rest (fst (storeEvent now e c))"

text \<open>The two backends as \<open>init\<close> leaves them on a fresh profile.\<close>

definition freshIndexedDB :: AttackCache where
  "freshIndexedDB = \<lparr> storageType = Some indexeddb, db = [], localStorageItem = None \<rparr>"

definition freshLocalStorage :: "int \<Rightarrow> AttackCache" where
  "freshLocalStorage now = \<lparr> storageType = Some localstorage, db = [],
     localStorageItem = Some \<lparr> events = [], lastCleanup = Some now, version = Some 1 \<rparr> \<rparr>"


section \<open>The browser\<close>

text \<open>
  What the code asks of its host and does not compute itself: the label
  \<open>toLocaleTimeString\<close> gives an instant (with or without seconds), the offset of local
  time from UTC at an instant (in milliseconds, behind \<open>getHours\<close>), the text of a number
  in a template literal, and whether the document has the two status elements
  \<open>#status-indicator\<close> and \<open>#status-text\<close>.
\<close>

record browser =
  toLocaleTimeString :: "bool \<Rightarrow> int \<Rightarrow> string"
  timezoneOffset :: "int \<Rightarrow> int"
  numberToString :: "real \<Rightarrow> string"
  statusElements :: bool

text \<open>An exception that leaves the function: reading a property of \<open>undefined\<close>.\<close>

datatype jsError = TypeError

definition getHours :: "browser \<Rightarrow> int \<Rightarrow> int" where
  "getHours b t = ((t + timezoneOffset b t) div (60 * 60 * 1000)) mod 24"


section \<open>Protocol names\<close>

text \<open>\<open>normalizeProtocol\<close> (lines 661 to 687). \<open>toUpperCase\<close> is modelled on the ASCII
  letters; other characters stay as they are.\<close>

definition toUpperCase :: "string \<Rightarrow> string" where
  "toUpperCase s = map (\<lambda>c. if 97 \<le> (of_char c :: nat) \<and> (of_char c :: nat) \<le> 122
                             then char_of ((of_char c :: nat) - 32) else c) s"

definition isDigits :: "string \<Rightarrow> bool" where
  "isDigits s = (s \<noteq> [] \<and> list_all (\<lambda>c. 48 \<le> (of_char c :: nat) \<and> (of_char c :: nat) \<le> 57) s)"

definition knownProtocols :: "string list" where
  "knownProtocols =
     [''CHARGEN'', ''FTP-DATA'', ''FTP'', ''SSH'', ''TELNET'', ''SMTP'', ''WINS'', ''DNS'', ''DHCP'', ''TFTP'',
      ''HTTP'', ''DICOM'', ''POP3'', ''NTP'', ''RPC'', ''IMAP'', ''SNMP'', ''LDAP'', ''HTTPS'', ''SMB'',
      ''SMTPS'', ''EMAIL'', ''IPMI'', ''IPP'', ''IMAPS'', ''POP3S'', ''NFS'', ''SOCKS'', ''SQL'', ''ORACLE'',
      ''PPTP'', ''MQTT'', ''SSDP'', ''IEC104'', ''HL7'', ''MYSQL'', ''RDP'', ''IPSEC'', ''SIP'', ''POSTGRESQL'',
      ''ADB'', ''VNC'', ''REDIS'', ''IRC'', ''JETDIRECT'', ''ELASTICSEARCH'', ''INDUSTRIAL'', ''MEMCACHED'',
      ''MONGODB'', ''SCADA'']"

definition normalizeProtocol :: "string option \<Rightarrow> string" where
  "normalizeProtocol p =
     (if \<not> truthy_str p then ''OTHER''
      else if isDigits (the p) then ''OTHER''
      else let protocolUpper = toUpperCase (the p)
           in if protocolUpper \<notin> set knownProtocols then ''OTHER'' else protocolUpper)"


section \<open>The timeline\<close>

text \<open>
  \<open>generateTimelineData\<close>, \<open>getDurationForInterval\<close>, \<open>addAttackToTimeline\<close>,
  \<open>formatTimeLabel\<close> and \<open>getUnitForInterval\<close> of \<open>static/dashboard.js\<close> (lines 695 to 884).
  One bucket of \<open>timelineData\<close>. The interval is the string the code switches on:
  \<open>'1m'\<close>, \<open>'1h'\<close>, and anything else for the 24 hour default.
\<close>

record point =
  point_timestamp :: int
  label :: string
  count :: nat
  unit :: string

definition getDurationForInterval :: "string \<Rightarrow> int" where
  "getDurationForInterval interval =
     (if interval = ''1m'' then 1000
      else if interval = ''1h'' then 60 * 1000
      else 60 * 60 * 1000)"

definition getUnitForInterval :: "string \<Rightarrow> string" where
  "getUnitForInterval interval =
     (if interval = ''1m'' then ''second''
      else if interval = ''1h'' then ''minute''
      else ''hour'')"

definition getPoints :: "string \<Rightarrow> nat" where
  "getPoints interval =
     (if interval = ''1m'' then 60
      else if interval = ''1h'' then 60
      else 24)"

definition formatTimeLabel :: "browser \<Rightarrow> string \<Rightarrow> int \<Rightarrow> string" where
  "formatTimeLabel b interval t =
     (if interval = ''1m'' then toLocaleTimeString b True t else toLocaleTimeString b False t)"

text \<open>The loop of \<open>generateTimelineData\<close> runs \<open>i\<close> from \<open>points - 1\<close> down to 0 and
  pushes the bucket of \<open>now - i * duration\<close>, rounded down to the unit.\<close>

definition generateTimelineData :: "browser \<Rightarrow> int \<Rightarrow> string \<Rightarrow> point list" where
  "generateTimelineData b now interval =
     (let points = getPoints interval;
          duration = getDurationForInterval interval;
          unit = getUnitForInterval interval
      in map (\<lambda>i. let t = now - int i * duration
                  in \<lparr> point_timestamp = (t div duration) * duration,
                       label = formatTimeLabel b interval t,
                       count = 0,
                       unit = unit \<rparr>)
             (rev [0..<points]))"

text \<open>\<open>attack.timestamp || attack.time || attack.date || Date.now()\<close>\<close>

definition attackTimeOf :: "int \<Rightarrow> event \<Rightarrow> int" where
  "attackTimeOf now attack =
     (if truthy_num (timestamp attack) then the (timestamp attack)
      else if truthy_num (time attack) then the (time attack)
      else if truthy_num (date attack) then the (date attack)
      else now)"

text \<open>The first loop of \<open>addAttackToTimeline\<close>: the first bucket whose range holds the
  attack counts it; \<open>None\<close> when no bucket does (\<open>attackAdded\<close> stays false).\<close>

fun countInBucket :: "int \<Rightarrow> int \<Rightarrow> point list \<Rightarrow> point list option" where
  "countInBucket duration attackTime [] = None"
| "countInBucket duration attackTime (p # ps) =
     (if attackTime \<ge> point_timestamp p \<and> attackTime < point_timestamp p + duration
      then Some (p\<lparr> count := count p + 1 \<rparr> # ps)
      else map_option ((#) p) (countInBucket duration attackTime ps))"

text \<open>The \<open>while (currentTime <= attackTime)\<close> loop: each round shifts the oldest
  bucket out and pushes a new one, and stops at the attack's own bucket.\<close>

function appendBuckets :: "browser \<Rightarrow> string \<Rightarrow> int \<Rightarrow> int \<Rightarrow> point list \<Rightarrow> point list" where
  "appendBuckets b interval attackTime currentTime data =
     (if currentTime \<le> attackTime
      then (let duration = getDurationForInterval interval;
                bucketStartTime = (currentTime div duration) * duration;
                isAttackBucket = (attackTime \<ge> bucketStartTime \<and> attackTime < bucketStartTime + duration);
                newPoint = \<lparr> point_timestamp = bucketStartTime,
                             label = formatTimeLabel b interval bucketStartTime,
                             count = (if isAttackBucket then 1 else 0),
                             unit = getUnitForInterval interval \<rparr>;
                shifted = tl data @ [newPoint]
            in if isAttackBucket then shifted
               else appendBuckets b interval attackTime (currentTime + duration) shifted)
      else data)"
  by pat_completeness auto
termination
  by (relation "measure (\<lambda>(b, interval, attackTime, currentTime, data). nat (attackTime - currentTime + 1))")
     (auto simp: getDurationForInterval_def)

definition addAttackToTimeline ::
    "browser \<Rightarrow> int \<Rightarrow> string \<Rightarrow> event \<Rightarrow> point list \<Rightarrow> jsError + point list" where
  "addAttackToTimeline b now interval attack data =
     (let attackTime = attackTimeOf now attack;
          duration = getDurationForInterval interval
      in case countInBucket duration attackTime data of
           Some counted \<Rightarrow> Inr counted
         | None \<Rightarrow>
             (if data = [] then Inl TypeError
              else let lastPointEndTime = point_timestamp (last data) + duration
                   in if attackTime \<ge> lastPointEndTime
                      then Inr (appendBuckets b interval attackTime lastPointEndTime data)
                      else Inr data))"

text \<open>A timeline in step: it is not empty, its first bucket starts on a multiple of the
  duration, and every bucket starts one duration after the bucket before it.\<close>

definition inStep :: "int \<Rightarrow> point list \<Rightarrow> bool" where
  "inStep d data =
     (data \<noteq> [] \<and> d dvd point_timestamp (hd data) \<and>
      map point_timestamp data = map (\<lambda>i. point_timestamp (hd data) + int i * d) [0..<length data])"


section \<open>The heatmap\<close>

text \<open>\<open>setupHeatmapData\<close> and \<open>addAttackToHeatmap\<close> (lines 3466 to 3541): one slot for each
  hour of the day, indexed by the local hour of the attack.\<close>

record heat =
  hour :: nat
  intensity :: real
  attacks :: nat

definition setupHeatmapData :: "heat list" where
  "setupHeatmapData = map (\<lambda>h. \<lparr> hour = h, intensity = 0, attacks = 0 \<rparr>) [0..<24]"

text \<open>\<open>Math.max(...heatmapData.map(h => h.attacks), 1)\<close>\<close>

definition maxAttacksOf :: "heat list \<Rightarrow> nat" where
  "maxAttacksOf hm = fold max (map attacks hm) 1"

definition recalcIntensity :: "heat list \<Rightarrow> heat list" where
  "recalcIntensity hm =
     (let maxAttacks = maxAttacksOf hm
      in map (\<lambda>hourData. hourData\<lparr> intensity :=
                (if maxAttacks > 0 then (real (attacks hourData) / real maxAttacks) * 100 else 0) \<rparr>) hm)"

text \<open>Intensities are exact quotients here; the code computes them in double precision.\<close>

definition addAttackToHeatmap :: "browser \<Rightarrow> int \<Rightarrow> event \<Rightarrow> heat list \<Rightarrow> jsError + heat list" where
  "addAttackToHeatmap b now attack hm =
     (let attackTime = (if truthy_num (timestamp attack) then the (timestamp attack) else now);
          h = getHours b attackTime
      in if h \<ge> 0 \<and> h \<le> 23
         then (if nat h < length hm
               then Inr (recalcIntensity (hm[nat h := (hm ! nat h)\<lparr> attacks := attacks (hm ! nat h) + 1 \<rparr>]))
               else Inl TypeError)
         else Inr hm)"


section \<open>Per-address and per-protocol counters\<close>

text \<open>\<open>updateIPTracking\<close> and \<open>updateProtocolStats\<close> as the class ends up with them: each
  is declared twice, and the later declaration (lines 3161 and 3421) replaces the earlier.
  The entry of \<open>ipStats\<close> for one address. The object is keyed by the text of the
  \<open>ip\<close> argument: a missing argument is filed under \<open>undefined\<close>.\<close>

record ipEntry =
  hits :: nat
  entry_country :: "string option"
  lastSeen :: int
  entry_ip :: "string option"
  reputation :: string
  lastProtocol :: string
  countryCode :: string

definition propertyKey :: "string option \<Rightarrow> string" where
  "propertyKey k = (case k of None \<Rightarrow> ''undefined'' | Some s \<Rightarrow> s)"

definition updateIPTracking ::
    "int \<Rightarrow> string option \<Rightarrow> string option \<Rightarrow> event \<Rightarrow> (string \<rightharpoonup> ipEntry) \<Rightarrow> (string \<rightharpoonup> ipEntry)" where
  "updateIPTracking now ipArg countryArg ev stats =
     (let ts = (if truthy_num (timestamp ev) then the (timestamp ev) else now);
          key = propertyKey ipArg;
          e0 = (case stats key of
                  None \<Rightarrow> \<lparr> hits = 0, entry_country = countryArg, lastSeen = ts, entry_ip = ipArg,
                            reputation = ''Unknown'', lastProtocol = ''Unknown'', countryCode = ''XX'' \<rparr>
                | Some en \<Rightarrow> en);
          e1 = e0\<lparr> hits := hits e0 + 1 \<rparr>;
          e2 = (if ts \<ge> lastSeen e1 then e1\<lparr> lastSeen := ts \<rparr> else e1);
          e3 = e2\<lparr> entry_country := countryArg \<rparr>;
          e4 = (if truthy_str (ip_rep ev) then e3\<lparr> reputation := the (ip_rep ev) \<rparr> else e3);
          e5 = (if truthy_str (protocol ev) then e4\<lparr> lastProtocol := normalizeProtocol (protocol ev) \<rparr> else e4);
          e6 = (if truthy_str (iso_code ev) \<or> truthy_str (country_code ev)
                then e5\<lparr> countryCode := the (or_str (iso_code ev) (country_code ev)) \<rparr> else e5)
      in stats(key \<mapsto> e6))"

definition updateProtocolStats :: "string option \<Rightarrow> (string \<rightharpoonup> nat) \<Rightarrow> (string \<rightharpoonup> nat)" where
  "updateProtocolStats p stats =
     (if \<not> truthy_str p then stats
      else let normalizedProtocol = normalizeProtocol p
           in stats(normalizedProtocol \<mapsto> (case stats normalizedProtocol of None \<Rightarrow> 0 | Some n \<Rightarrow> n) + 1))"

text \<open>\<open>aggregateProtocolStats\<close>: the counters are rebuilt from the attacks of the
  history younger than 15 minutes. An attack without a timestamp fails the comparison.\<close>

definition aggregateProtocolStats :: "int \<Rightarrow> event list \<Rightarrow> (string \<rightharpoonup> nat)" where
  "aggregateProtocolStats now history =
     (let retentionTime = 15 * 60 * 1000;
          recent = filter (\<lambda>attack. case timestamp attack of None \<Rightarrow> False
                                     | Some t \<Rightarrow> now - t < retentionTime) history
      in fold (\<lambda>attack stats.
                 let normalizedProtocol = normalizeProtocol (protocol attack)
                 in stats(normalizedProtocol \<mapsto> (case stats normalizedProtocol of None \<Rightarrow> 0 | Some n \<Rightarrow> n) + 1))
              recent Map.empty)"


section \<open>The dashboard\<close>

text \<open>
  The fields of \<open>class AttackMapDashboard\<close> that ingestion, restoration and the
  connection monitor read or write. Charts, tables, sound, the honeypot and country
  trackers and the map are left out: nothing below reads them.
\<close>

datatype connectionStatus = connecting | connected | idle | disconnected

record dashboard =
  attackHistory :: "event list"
  timelineInterval :: string
  timelineData :: "point list"
  heatmapData :: "heat list"
  ipStats :: "string \<rightharpoonup> ipEntry"
  protocolStats :: "string \<rightharpoonup> nat"
  connectionStatus :: connectionStatus
  attackCache :: AttackCache
  cacheInitialized :: bool
  restoringFromCache :: bool

text \<open>The dashboard as its constructor and \<open>initThreatHeatmap\<close> leave it, before the
  cache is initialized, over a given backend.\<close>

definition newDashboard :: "browser \<Rightarrow> int \<Rightarrow> AttackCache \<Rightarrow> dashboard" where
  "newDashboard b now c =
     \<lparr> attackHistory = [], timelineInterval = ''24h'',
       timelineData = generateTimelineData b now ''24h'',
       heatmapData = setupHeatmapData,
       ipStats = Map.empty, protocolStats = Map.empty,
       connectionStatus = connecting,
       attackCache = c, cacheInitialized = False, restoringFromCache = False \<rparr>"


subsection \<open>Live ingestion\<close>

text \<open>
  \<open>addAttackEvent\<close> (lines 2923 to 2965) and \<open>updateLiveAttackDisplay\<close> (lines 3053 to
  3070). \<open>addAttackEvent\<close> assigns to the \<open>timestamp\<close> property of the object it is given,
  so the model returns that object with the new state. \<open>Inl\<close> is an exception leaving the
  function, with the updates made before it lost from the model.
\<close>

definition updateLiveAttackDisplay :: "int \<Rightarrow> event \<Rightarrow> dashboard \<Rightarrow> dashboard" where
  "updateLiveAttackDisplay now ev st =
     st\<lparr> ipStats := updateIPTracking now (ip ev) (country ev) ev (ipStats st),
         protocolStats := updateProtocolStats (protocol ev) (protocolStats st) \<rparr>"

definition addAttackEvent ::
    "browser \<Rightarrow> int \<Rightarrow> event \<Rightarrow> dashboard \<Rightarrow> jsError + (dashboard \<times> event)" where
  "addAttackEvent b now ev0 st0 =
     (let ev = ev0\<lparr> timestamp := Some now \<rparr>;
          st1 = st0\<lparr> attackHistory := attackHistory st0 @ [ev] \<rparr>;
          st2 = (if cacheInitialized st1 \<and> \<not> restoringFromCache st1
                 then st1\<lparr> attackCache := fst (storeEvent now ev (attackCache st1)) \<rparr>
                 else st1)
      in case addAttackToTimeline b now (timelineInterval st2) ev (timelineData st2) of
           Inl err \<Rightarrow> Inl err
         | Inr tline \<Rightarrow>
            (case addAttackToHeatmap b now ev (heatmapData st2) of
               Inl err \<Rightarrow> Inl err
             | Inr hm \<Rightarrow>
                (let st3 = st2\<lparr> timelineData := tline, heatmapData := hm \<rparr>;
                     st4 = (if length (attackHistory st3) > 1000
                            then st3\<lparr> attackHistory := tl (attackHistory st3) \<rparr> else st3)
                 in Inr (updateLiveAttackDisplay now ev st4, ev))))"

text \<open>A run of live events, each with the clock reading of its arrival.\<close>

fun ingestLive :: "browser \<Rightarrow> (int \<times> event) list \<Rightarrow> dashboard \<Rightarrow> jsError + dashboard" where
  "ingestLive b [] st = Inr st"
| "ingestLive b ((now, ev) # rest) st =
     (case addAttackEvent b now ev st of
        Inl err \<Rightarrow> Inl err
      | Inr (st', ev') \<Rightarrow> ingestLive b rest st')"


subsection \<open>Restoration\<close>

text \<open>The body of the batch loop of \<open>restoreFromCache\<close> (lines 463 to 481), for one cached
  event; it
  assigns to no property of the event, which is returned as it was passed.\<close>

definition replayEvent ::
    "browser \<Rightarrow> int \<Rightarrow> event \<Rightarrow> dashboard \<Rightarrow> jsError + (dashboard \<times> event)" where
  "replayEvent b now ev st =
     (case addAttackToTimeline b now (timelineInterval st) ev (timelineData st) of
        Inl err \<Rightarrow> Inl err
      | Inr tline \<Rightarrow>
         (case addAttackToHeatmap b now ev (heatmapData st) of
            Inl err \<Rightarrow> Inl err
          | Inr hm \<Rightarrow>
             Inr (st\<lparr> timelineData := tline, heatmapData := hm,
                      ipStats := updateIPTracking now (or_str (ip ev) (source_ip ev)) (country ev) ev (ipStats st),
                      protocolStats := updateProtocolStats (protocol ev) (protocolStats st) \<rparr>, ev)))"

fun replayEvents :: "browser \<Rightarrow> int \<Rightarrow> event list \<Rightarrow> dashboard \<Rightarrow> jsError + dashboard" where
  "replayEvents b now [] st = Inr st"
| "replayEvents b now (ev # rest) st =
     (case replayEvent b now ev st of
        Inl err \<Rightarrow> Inl err
      | Inr (st', ev') \<Rightarrow> replayEvents b now rest st')"







text \<open>What \<open>finalizeRestoration\<close> does to the fields of the model: the protocol counters
  are rebuilt from the history, and the flag is cleared (in its \<open>finally\<close>).\<close>

definition finalizeRestoration :: "int \<Rightarrow> dashboard \<Rightarrow> dashboard" where
  "finalizeRestoration now st =
     st\<lparr> protocolStats := aggregateProtocolStats now (attackHistory st),
         restoringFromCache := False \<rparr>"

text \<open>\<open>processBatch\<close> replays 500 events and hands the next batch to
  \<open>requestAnimationFrame\<close>; the last batch calls \<open>finalizeRestoration\<close>. The batches are
  run here one after the other, with no other handler in between.\<close>

definition BATCH_SIZE :: nat where
  "BATCH_SIZE = 500"

function processBatch :: "browser \<Rightarrow> int \<Rightarrow> event list \<Rightarrow> nat \<Rightarrow> dashboard \<Rightarrow> jsError + dashboard" where
  "processBatch b now cachedEvents processedCount st =
     (let batchEnd = min (processedCount + BATCH_SIZE) (length cachedEvents)
      in case replayEvents b now (take (batchEnd - processedCount) (drop processedCount cachedEvents)) st of
           Inl err \<Rightarrow> Inl err
         | Inr st' \<Rightarrow>
             (if batchEnd < length cachedEvents
              then processBatch b now cachedEvents batchEnd st'
              else Inr (finalizeRestoration now st')))"
  by pat_completeness auto
termination
  by (relation "measure (\<lambda>(b, now, cachedEvents, processedCount, st). length cachedEvents - processedCount)")
     (auto simp: BATCH_SIZE_def)

text \<open>\<open>cachedEvents.sort((a, b) => a.timestamp - b.timestamp)\<close>: a stable sort; every
  event a backend returns has a timestamp.\<close>

definition sortByTimestamp :: "event list \<Rightarrow> event list" where
  "sortByTimestamp evs = sort_key (\<lambda>e. the (timestamp e)) evs"

definition restoreFromCache :: "browser \<Rightarrow> int \<Rightarrow> dashboard \<Rightarrow> jsError + dashboard" where
  "restoreFromCache b now st0 =
     (let st1 = st0\<lparr> restoringFromCache := True \<rparr>;
          cachedEvents = getStoredEvents now (attackCache st1)
      in if length cachedEvents > 0
         then (let sorted = sortByTimestamp cachedEvents;
                   st2 = st1\<lparr> attackHistory := map (\<lambda>e. e\<lparr> restored := True \<rparr>) sorted \<rparr>
               in processBatch b now sorted 0 st2)
         else Inr (st1\<lparr> restoringFromCache := False \<rparr>))"


subsection \<open>The connection monitor\<close>

text \<open>\<open>syncConnectionStatus\<close> (lines 2661 to 2693), polled every 2 seconds, and
  \<open>updateConnectionStatus\<close> (lines 2967 to 3006).\<close>

datatype readyState = CONNECTING | OPEN | CLOSING | CLOSED

definition IDLE_THRESHOLD :: int where
  "IDLE_THRESHOLD = 30000"

definition updateConnectionStatus :: "browser \<Rightarrow> connectionStatus \<Rightarrow> dashboard \<Rightarrow> dashboard" where
  "updateConnectionStatus b status st =
     (if connectionStatus st = status then st
      else if statusElements b then st\<lparr> connectionStatus := status \<rparr>
      else st)"

text \<open>\<open>ws\<close> is \<open>window.webSocket\<close> by its \<open>readyState\<close>, \<open>None\<close> when there is no socket;
  \<open>lastValidDataTime\<close> is the global of that name.\<close>

definition syncConnectionStatus ::
    "browser \<Rightarrow> int \<Rightarrow> readyState option \<Rightarrow> int option \<Rightarrow> dashboard \<Rightarrow> dashboard" where
  "syncConnectionStatus b now ws lastValidDataTime st =
     (case ws of
        None \<Rightarrow> updateConnectionStatus b disconnected st
      | Some state \<Rightarrow>
          if state = CONNECTING then updateConnectionStatus b connecting st
          else if state = CLOSING \<or> state = CLOSED then updateConnectionStatus b disconnected st
          else let lastMsgTime = (if truthy_num lastValidDataTime then the lastValidDataTime else 0);
                   timeSinceLastMsg = now - lastMsgTime
               in if timeSinceLastMsg < IDLE_THRESHOLD
                  then updateConnectionStatus b connected st
                  else updateConnectionStatus b idle st)"


section \<open>The WebSocket connection\<close>

text \<open>
  \<open>connectWebSocket\<close> and the socket's handlers, of the map script (the second unnamed
  source file, lines 1273 to 1382 and 1496 to 1516). The calls they make to the
  dashboard's \<open>updateConnectionStatus\<close> and to the heartbeat are left out.
  The module-level state of the script: every \<open>WebSocket\<close> object it has created,
  by its \<open>readyState\<close> and in the order of creation, the current one
  (\<open>window.webSocket\<close>), the guard, and the delays of the reconnect timers that are
  set and have not fired. The browser's part: a new socket is \<open>CONNECTING\<close>, and
  \<open>close()\<close> makes a socket that is \<open>CONNECTING\<close> or \<open>OPEN\<close> \<open>CLOSING\<close>.
\<close>

record connection =
  sockets :: "readyState list"
  webSocket :: "nat option"
  reconnectAttempts :: nat
  isReconnecting :: bool
  webSocketConnected :: bool
  timers :: "nat list"

definition reconnectDelay :: nat where
  "reconnectDelay = 60000"

definition pageLoaded :: connection where
  "pageLoaded = \<lparr> sockets = [], webSocket = None, reconnectAttempts = 0,
     isReconnecting = False, webSocketConnected = False, timers = [] \<rparr>"

definition socketClose :: "nat \<Rightarrow> readyState list \<Rightarrow> readyState list" where
  "socketClose i socks =
     (if i < length socks \<and> (socks ! i = CONNECTING \<or> socks ! i = OPEN)
      then socks[i := CLOSING] else socks)"

definition connectWebSocket :: "connection \<Rightarrow> connection" where
  "connectWebSocket s =
     (if isReconnecting s then s
      else let socks = (case webSocket s of None \<Rightarrow> sockets s | Some i \<Rightarrow> socketClose i (sockets s))
           in s\<lparr> isReconnecting := True,
                 sockets := socks @ [CONNECTING],
                 webSocket := Some (length socks) \<rparr>)"

definition onopen :: "connection \<Rightarrow> connection" where
  "onopen s = s\<lparr> isReconnecting := False, reconnectAttempts := 0, webSocketConnected := True \<rparr>"

text \<open>The callback that \<open>onclose\<close> hands to \<open>setTimeout\<close>.\<close>

definition reconnectCallback :: "connection \<Rightarrow> connection" where
  "reconnectCallback s =
     connectWebSocket (s\<lparr> reconnectAttempts := reconnectAttempts s + 1, isReconnecting := False \<rparr>)"

definition onclose :: "nat \<Rightarrow> connection \<Rightarrow> connection" where
  "onclose code s =
     (let s1 = s\<lparr> webSocketConnected := False \<rparr>
      in if code \<noteq> 1000
         then s1\<lparr> timers := timers s1 @ [reconnectDelay] \<rparr>
         else s1\<lparr> isReconnecting := False \<rparr>)"

definition checkConnectionHealth :: "connection \<Rightarrow> bool" where
  "checkConnectionHealth s =
     (case webSocket s of None \<Rightarrow> False
      | Some i \<Rightarrow> i < length (sockets s) \<and> sockets s ! i = OPEN)"

text \<open>The \<open>visibilitychange\<close> handler, when the page becomes visible.\<close>

definition onVisible :: "connection \<Rightarrow> connection" where
  "onVisible s =
     (if \<not> checkConnectionHealth s then connectWebSocket (s\<lparr> isReconnecting := False \<rparr>) else s)"

text \<open>
  What can happen to the connection: the page loads and connects, the browser opens a
  connecting socket or closes a socket that is not closed yet (running the socket's
  handler), the oldest pending timer fires, the page becomes visible. \<open>None\<close>: the event
  cannot happen in that state.
\<close>

datatype wsEvent = DOMContentLoaded | Opens nat | Closes nat nat | TimerFires | BecomesVisible

fun deliver :: "wsEvent \<Rightarrow> connection \<Rightarrow> connection option" where
  "deliver DOMContentLoaded s = Some (connectWebSocket s)"
| "deliver (Opens i) s =
     (if i < length (sockets s) \<and> sockets s ! i = CONNECTING
      then Some (onopen (s\<lparr> sockets := (sockets s)[i := OPEN] \<rparr>)) else None)"
| "deliver (Closes i code) s =
     (if i < length (sockets s) \<and> sockets s ! i \<noteq> CLOSED
      then Some (onclose code (s\<lparr> sockets := (sockets s)[i := CLOSED] \<rparr>)) else None)"
| "deliver TimerFires s =
     (case timers s of [] \<Rightarrow> None
      | d # rest \<Rightarrow> Some (reconnectCallback (s\<lparr> timers := rest \<rparr>)))"
| "deliver BecomesVisible s = Some (onVisible s)"

fun run :: "wsEvent list \<Rightarrow> connection \<Rightarrow> connection option" where
  "run [] s = Some s"
| "run (e # es) s = (case deliver e s of None \<Rightarrow> None | Some s' \<Rightarrow> run es s')"

definition pending :: "readyState \<Rightarrow> bool" where
  "pending r = (r = CONNECTING)"

text \<open>A socket that is connecting or open.\<close>

definition live :: "readyState \<Rightarrow> bool" where
  "live r = (r = CONNECTING \<or> r = OPEN)"

text \<open>Every socket but the current one has been closed or told to close.\<close>

definition othersClosing :: "connection \<Rightarrow> bool" where
  "othersClosing s =
     ((case webSocket s of None \<Rightarrow> True | Some j \<Rightarrow> j < length (sockets s)) \<and>
      (\<forall>i < length (sockets s). webSocket s \<noteq> Some i \<longrightarrow>
          sockets s ! i = CLOSING \<or> sockets s ! i = CLOSED))"

declare appendBuckets.simps [simp del]
declare processBatch.simps [simp del]

text \<open>What the aggregation engine holds: the timeline with its interval, the heatmap,
  the per-address tracker and the protocol counters.\<close>

definition aggregates ::
    "dashboard \<Rightarrow> string \<times> point list \<times> heat list \<times> (string \<rightharpoonup> ipEntry) \<times> (string \<rightharpoonup> nat)" where
  "aggregates st = (timelineInterval st, timelineData st, heatmapData st, ipStats st, protocolStats st)"

text \<open>Cached events paired with the clock reading at which each one was ingested live:
  its own timestamp.\<close>

definition atOwnTime :: "event list \<Rightarrow> (int \<times> event) list" where
  "atOwnTime evs = map (\<lambda>e. (the (timestamp e), e)) evs"


section \<open>Fixtures\<close>

text \<open>A host for the examples: local time is UTC and the document has the status
  elements. Labels and the texts of numbers are left empty; no example depends on them.\<close>

definition utcBrowser :: browser where
  "utcBrowser = \<lparr> toLocaleTimeString = (\<lambda>seconds t. []), timezoneOffset = (\<lambda>t. 0),
     numberToString = (\<lambda>x. []), statusElements = True \<rparr>"

text \<open>A dashboard built at the epoch over the empty indexed backend, its cache
  initialized.\<close>

definition readyDashboard :: dashboard where
  "readyDashboard = (newDashboard utcBrowser 0 freshIndexedDB)\<lparr> cacheInitialized := True \<rparr>"

text \<open>An attack as the transport adapter builds it, with the sender's address in both
  \<open>ip\<close> and \<open>source_ip\<close>, and a dashboard whose indexed backend holds that attack,
  stored at the instant of its timestamp.\<close>

definition sshEvent :: "int \<Rightarrow> event" where
  "sshEvent t = blankEvent\<lparr> ip := Some ''203.0.113.7'', source_ip := Some ''203.0.113.7'',
     country := Some ''Germany'', protocol := Some ''ssh'', timestamp := Some t \<rparr>"

definition cachedDashboard :: "int \<Rightarrow> dashboard" where
  "cachedDashboard t =
     (newDashboard utcBrowser t (fst (storeEvent t (sshEvent t) freshIndexedDB)))
       \<lparr> cacheInitialized := True \<rparr>"


section \<open>Retention: what the store holds after cleanup\<close>

lemma slice_last_length: "length (slice_last n xs) = min n (length xs)"
  by (simp add: slice_last_def)

lemma slice_last_suffix: "suffix (slice_last n xs) xs"
  by (simp add: slice_last_def suffix_drop)

lemma storedEvents_indexeddb_storeAll:
  "storageType c = Some indexeddb \<Longrightarrow>
     storageType (storeAll xs c) = Some indexeddb \<and>
     db (storeAll xs c) = db c @ map (\<lambda>(now, e). eventToStore now e) xs"
proof (induction xs arbitrary: c)
  case Nil
  then show ?case by simp
next
  case (Cons x xs)
  obtain now e where x: "x = (now, e)" by (cases x)
  let ?c = "fst (storeEvent now e c)"
  have st: "storageType ?c = Some indexeddb"
    using Cons.prems by (simp add: storeEvent_def storeEventIndexedDB_def)
  have dbc: "db ?c = db c @ [eventToStore now e]"
    using Cons.prems by (simp add: storeEvent_def storeEventIndexedDB_def)
  from Cons.IH [OF st] dbc show ?case by (simp add: x)
qed

text \<open>On both backends no event at or before the cutoff survives a cleanup.\<close>

lemma cleanupIndexedDB_window:
  "e \<in> set (db (cleanupIndexedDB now c)) \<Longrightarrow> timestamp e = Some t \<Longrightarrow>
     t > now - retentionPeriod"
  by (auto simp: cleanupIndexedDB_def inIndexRange_def upperBound_def Let_def)

lemma cleanupLocalStorage_window:
  "e \<in> set (events (loadDoc (cleanupLocalStorage now c))) \<Longrightarrow>
     \<exists>t. timestamp e = Some t \<and> t > now - retentionPeriod"
proof -
  assume a: "e \<in> set (events (loadDoc (cleanupLocalStorage now c)))"
  let ?recent = "filter (\<lambda>e. truthy_num (timestamp e) \<and> the (timestamp e) > now - retentionPeriod)
                   (events (loadDoc c))"
  have "set (events (loadDoc (cleanupLocalStorage now c))) \<subseteq> set ?recent"
    using set_drop_subset [of "length ?recent - maxEvents" ?recent]
    by (auto simp: cleanupLocalStorage_def loadDoc_def Let_def slice_last_def)
  with a have "e \<in> set ?recent" by blast
  then show ?thesis
    by (cases "timestamp e") (auto simp: truthy_num_def)
qed

text \<open>The fallback backend also keeps at most \<open>maxEvents\<close> events, the last ones of
  the document.\<close>

lemma cleanupLocalStorage_cap:
  "length (events (loadDoc (cleanupLocalStorage now c))) \<le> maxEvents"
  by (simp add: cleanupLocalStorage_def loadDoc_def Let_def slice_last_length)

lemma cleanupLocalStorage_keeps_newest:
  "suffix (events (loadDoc (cleanupLocalStorage now c)))
     (filter (\<lambda>e. truthy_num (timestamp e) \<and> the (timestamp e) > now - retentionPeriod)
        (events (loadDoc c)))"
  by (simp add: cleanupLocalStorage_def loadDoc_def Let_def slice_last_suffix)

lemma slice_last_id: "length xs \<le> n \<Longrightarrow> slice_last n xs = xs"
  by (simp add: slice_last_def)

lemma slice_last_twice: "slice_last n (slice_last n ys @ zs) = slice_last n (ys @ zs)"
  by (cases "length ys \<le> n") (simp_all add: slice_last_def ac_simps)

lemma storeEventLocalStorage_events:
  "events (loadDoc (storeEventLocalStorage e c)) = slice_last maxEvents (events (loadDoc c) @ [e])"
  by (simp add: storeEventLocalStorage_def loadDoc_def Let_def slice_last_id)

lemma storeAll_localstorage:
  "storageType c \<noteq> Some indexeddb \<Longrightarrow> length (events (loadDoc c)) \<le> maxEvents \<Longrightarrow>
     storageType (storeAll xs c) = storageType c \<and>
     events (loadDoc (storeAll xs c)) =
       slice_last maxEvents (events (loadDoc c) @ map (\<lambda>(now, e). eventToStore now e) xs)"
proof (induction xs arbitrary: c)
  case Nil
  then show ?case by (simp add: slice_last_id)
next
  case (Cons x xs)
  obtain now e where x: "x = (now, e)" by (cases x)
  let ?c = "fst (storeEvent now e c)"
  have c': "?c = storeEventLocalStorage (eventToStore now e) c"
    using Cons.prems(1) by (simp add: storeEvent_def)
  have st: "storageType ?c = storageType c"
    by (simp add: c' storeEventLocalStorage_def Let_def)
  have ev: "events (loadDoc ?c) = slice_last maxEvents (events (loadDoc c) @ [eventToStore now e])"
    by (simp only: c' storeEventLocalStorage_events)
  have len: "length (events (loadDoc ?c)) \<le> maxEvents"
    by (simp add: ev slice_last_length)
  from Cons.IH [of ?c] st Cons.prems(1) len
  have "storageType (storeAll xs ?c) = storageType c"
    and "events (loadDoc (storeAll xs ?c)) =
      slice_last maxEvents (events (loadDoc ?c) @ map (\<lambda>(now, e). eventToStore now e) xs)"
    by simp_all
  then show ?case
    by (simp add: x ev slice_last_twice)
qed

lemma cleanupLocalStorage_events:
  "events (loadDoc (cleanupLocalStorage now c)) =
     slice_last maxEvents
       (filter (\<lambda>e. truthy_num (timestamp e) \<and> the (timestamp e) > now - retentionPeriod)
          (events (loadDoc c)))"
  by (simp add: cleanupLocalStorage_def loadDoc_def Let_def slice_last_id)

text \<open>The same run on the fallback backend: 10,000 of the 10,001 events remain.\<close>

lemma cleanup_localstorage_at_cap:
  "length (storedEvents (cleanup 1700000000000
      (storeAll (replicate 10001 (1700000000000, blankEvent)) (freshLocalStorage 1700000000000)))) = 10000"
proof -
  let ?t = "1700000000000 :: int"
  let ?fresh = "freshLocalStorage ?t"
  let ?c = "storeAll (replicate 10001 (?t, blankEvent)) ?fresh"
  let ?e = "eventToStore ?t blankEvent"
  have st0: "storageType ?fresh \<noteq> Some indexeddb" and ev0: "events (loadDoc ?fresh) = []"
    by (simp_all add: freshLocalStorage_def loadDoc_def)
  have len0: "length (events (loadDoc ?fresh)) \<le> maxEvents"
    by (simp only: ev0) simp
  note R = storeAll_localstorage [OF st0 len0, of "replicate 10001 (?t, blankEvent)"]
  have st: "storageType ?c \<noteq> Some indexeddb"
    using R st0 by (simp only:) simp
  have ev: "events (loadDoc ?c) = slice_last maxEvents (replicate 10001 ?e)"
    using R by (simp only: ev0) simp
  have ev': "events (loadDoc ?c) = replicate 10000 ?e"
    unfolding ev by (simp add: slice_last_def maxEvents_def)
  have recent: "truthy_num (timestamp ?e) \<and> the (timestamp ?e) > ?t - retentionPeriod"
    by (simp add: eventToStore_def blankEvent_def or_num_def truthy_num_def retentionPeriod_def)
  have "filter (\<lambda>e. truthy_num (timestamp e) \<and> the (timestamp e) > ?t - retentionPeriod)
          (replicate 10000 ?e) = replicate 10000 ?e"
    using recent by (simp only: filter_replicate) simp
  then have "events (loadDoc (cleanupLocalStorage ?t ?c)) = replicate 10000 ?e"
    by (simp only: cleanupLocalStorage_events ev') (simp add: slice_last_def maxEvents_def)
  moreover have "storageType (cleanupLocalStorage ?t ?c) = storageType ?c"
    by (simp add: cleanupLocalStorage_def Let_def)
  ultimately show ?thesis
    using st by (simp add: cleanup_def storedEvents_def)
qed

text \<open>
  Claim C1: after any run of \<open>store\<close> calls and a \<open>cleanup\<close>, the store holds no event
  at or before \<open>now - windowMs\<close> and at most 10,000 events, on both backends.

  The window holds on both (\<open>cleanupIndexedDB_window\<close>, \<open>cleanupLocalStorage_window\<close>)
  and the fallback backend keeps the cap (\<open>cleanupLocalStorage_cap\<close>; 10,000 of 10,001
  events remain, \<open>cleanup_localstorage_at_cap\<close>), but nothing on the indexed backend
  ever compares the number of records with \<open>maxEvents\<close>: 10,001 events stored at one
  instant and cleaned up at that instant are all still there.
\<close>

theorem cleanup_indexeddb_over_cap:
  "length (storedEvents (cleanup 1700000000000
      (storeAll (replicate 10001 (1700000000000, blankEvent)) freshIndexedDB))) = 10001
   \<and> maxEvents < 10001"
proof -
  let ?xs = "replicate 10001 (1700000000000::int, blankEvent)"
  let ?c = "storeAll ?xs freshIndexedDB"
  have st0: "storageType freshIndexedDB = Some indexeddb"
    by (simp add: freshIndexedDB_def)
  have st: "storageType ?c = Some indexeddb"
    using storedEvents_indexeddb_storeAll [OF st0] by blast
  have dbc: "db ?c = replicate 10001 (eventToStore 1700000000000 blankEvent)"
    using storedEvents_indexeddb_storeAll [OF st0, of ?xs]
    by (simp add: freshIndexedDB_def)
  have keep: "\<not> inIndexRange (upperBound (1700000000000 - retentionPeriod))
                 (eventToStore 1700000000000 blankEvent)"
    by (simp add: inIndexRange_def upperBound_def eventToStore_def blankEvent_def
        or_num_def truthy_num_def retentionPeriod_def)
  have "db (cleanupIndexedDB 1700000000000 ?c) = db ?c"
    using keep by (simp add: cleanupIndexedDB_def Let_def dbc)
  then have "length (storedEvents (cleanup 1700000000000 ?c)) = 10001"
    using st by (simp add: cleanup_def storedEvents_def cleanupIndexedDB_def Let_def dbc)
  then show ?thesis by (simp add: maxEvents_def)
qed

text \<open>
  Claim C7: a query for recent events returns exactly the events with
  \<open>timestamp > now - windowMs\<close>, an event at exactly \<open>now - windowMs\<close> being excluded,
  on both backends.

  The fallback backend filters with a strict comparison
  (\<open>getStoredEventsLocalStorage_strict\<close> below). The indexed backend asks the index for
  \<open>IDBKeyRange.lowerBound(cutoff)\<close>, a closed bound: the event stored with a timestamp of
  exactly \<open>now - retentionPeriod\<close> is returned.
\<close>

theorem getStoredEvents_indexeddb_boundary:
  "map timestamp (getStoredEvents 1700000000000
      (fst (storeEvent 1699990000000
         (blankEvent\<lparr> timestamp := Some (1700000000000 - retentionPeriod) \<rparr>) freshIndexedDB)))
   = [Some (1700000000000 - retentionPeriod)]"
  by (simp add: getStoredEvents_def getStoredEventsIndexedDB_def storeEvent_def
      storeEventIndexedDB_def eventToStore_def freshIndexedDB_def blankEvent_def
      inIndexRange_def lowerBound_def or_num_def truthy_num_def retentionPeriod_def Let_def)

lemma getStoredEventsLocalStorage_strict:
  "set (getStoredEventsLocalStorage now c) =
     {e \<in> set (events (loadDoc c)). \<exists>t. timestamp e = Some t \<and> t \<noteq> 0 \<and> t > now - retentionPeriod}"
  by (auto simp: getStoredEventsLocalStorage_def Let_def truthy_num_def split: option.splits)


section \<open>The connection monitor\<close>

lemma updateConnectionStatus_status:
  "connectionStatus (updateConnectionStatus b status st) =
     (if statusElements b then status else connectionStatus st)"
  by (simp add: updateConnectionStatus_def)

text \<open>
  Claim C3, as stated: on every poll, an open socket with data 40,000 ms old makes the
  state Idle, with data 5,000 ms old Connected, and a closed, closing or absent socket
  Disconnected.

  \<open>updateConnectionStatus\<close> records the new status only when the document has both
  status elements. Without them the poll leaves the state as it was: here it stays
  \<open>connecting\<close> although the socket is open and the data 40,000 ms old.
\<close>

theorem syncConnectionStatus_needs_elements:
  "connectionStatus (syncConnectionStatus (utcBrowser\<lparr> statusElements := False \<rparr>)
      100000 (Some OPEN) (Some (100000 - 40000)) readyDashboard) \<noteq> idle"
  by (simp add: syncConnectionStatus_def updateConnectionStatus_def utcBrowser_def
      readyDashboard_def newDashboard_def truthy_num_def IDLE_THRESHOLD_def)

text \<open>
  Claim C3, amended: when the document has the status elements, the poll sets the state
  by the socket first (absent, closing or closed: Disconnected; connecting: Connecting)
  and only for an open socket by the age of the last valid data, Connected below
  30,000 ms and Idle from 30,000 ms on; when the elements are missing the state is left
  unchanged.
\<close>

theorem syncConnectionStatus_outcome:
  "connectionStatus (syncConnectionStatus b now ws lastValid st) =
     (if statusElements b
      then (case ws of
              None \<Rightarrow> disconnected
            | Some CONNECTING \<Rightarrow> connecting
            | Some OPEN \<Rightarrow>
                (if now - (case lastValid of None \<Rightarrow> 0 | Some t \<Rightarrow> t) < 30000
                 then connected else idle)
            | Some CLOSING \<Rightarrow> disconnected
            | Some CLOSED \<Rightarrow> disconnected)
      else connectionStatus st)"
proof (cases ws)
  case None
  then show ?thesis
    by (simp add: syncConnectionStatus_def updateConnectionStatus_status)
next
  case (Some state)
  have age: "(if truthy_num lastValid then the lastValid else 0) =
             (case lastValid of None \<Rightarrow> 0 | Some t \<Rightarrow> t)"
    by (cases lastValid) (simp_all add: truthy_num_def)
  show ?thesis
    unfolding Some syncConnectionStatus_def Let_def age
    by (cases state) (simp_all add: updateConnectionStatus_status IDLE_THRESHOLD_def)
qed

theorem syncConnectionStatus_outcome_witness:
  "connectionStatus (syncConnectionStatus utcBrowser 100000 (Some OPEN) (Some (100000 - 40000)) readyDashboard) = idle
   \<and> connectionStatus (syncConnectionStatus utcBrowser 100000 (Some OPEN) (Some (100000 - 5000)) readyDashboard) = connected
   \<and> connectionStatus (syncConnectionStatus utcBrowser 100000 (Some CLOSED) (Some (100000 - 5000)) readyDashboard) = disconnected
   \<and> connectionStatus (syncConnectionStatus utcBrowser 100000 (Some CLOSING) (Some 100000) readyDashboard) = disconnected
   \<and> connectionStatus (syncConnectionStatus utcBrowser 100000 None (Some 100000) readyDashboard) = disconnected"
  using syncConnectionStatus_outcome [of utcBrowser 100000 "Some OPEN" "Some (100000 - 40000)" readyDashboard]
    syncConnectionStatus_outcome [of utcBrowser 100000 "Some OPEN" "Some (100000 - 5000)" readyDashboard]
    syncConnectionStatus_outcome [of utcBrowser 100000 "Some CLOSED" "Some (100000 - 5000)" readyDashboard]
    syncConnectionStatus_outcome [of utcBrowser 100000 "Some CLOSING" "Some 100000" readyDashboard]
    syncConnectionStatus_outcome [of utcBrowser 100000 None "Some 100000" readyDashboard]
  by (simp add: utcBrowser_def)


section \<open>Reconnection\<close>

lemma othersClosing_connect:
  assumes "othersClosing s"
  shows "othersClosing (connectWebSocket s)"
proof (cases "isReconnecting s")
  case True
  with assms show ?thesis by (simp add: connectWebSocket_def Let_def)
next
  case False
  show ?thesis
  proof (cases "webSocket s")
    case None
    with assms False show ?thesis
      by (auto simp: connectWebSocket_def Let_def othersClosing_def nth_append)
  next
    case (Some j)
    have closed_j: "socketClose j (sockets s) ! j = CLOSING \<or> socketClose j (sockets s) ! j = CLOSED"
      using assms Some
      by (cases "sockets s ! j") (auto simp: socketClose_def othersClosing_def)
    have len: "length (socketClose j (sockets s)) = length (sockets s)"
      by (simp add: socketClose_def)
    have others: "\<And>i. i < length (sockets s) \<Longrightarrow> i \<noteq> j \<Longrightarrow>
          socketClose j (sockets s) ! i = sockets s ! i"
      by (simp add: socketClose_def)
    show ?thesis
      unfolding othersClosing_def
    proof (intro conjI allI impI)
      show "case webSocket (connectWebSocket s) of None \<Rightarrow> True
            | Some k \<Rightarrow> k < length (sockets (connectWebSocket s))"
        using False Some by (simp add: connectWebSocket_def Let_def)
    next
      fix i
      assume i: "i < length (sockets (connectWebSocket s))"
         and cur: "webSocket (connectWebSocket s) \<noteq> Some i"
      have socks: "sockets (connectWebSocket s) = socketClose j (sockets s) @ [CONNECTING]"
        and ws: "webSocket (connectWebSocket s) = Some (length (sockets s))"
        using False Some by (simp_all add: connectWebSocket_def Let_def len)
      from i cur socks ws len have i_lt: "i < length (sockets s)" by auto
      show "sockets (connectWebSocket s) ! i = CLOSING \<or> sockets (connectWebSocket s) ! i = CLOSED"
      proof (cases "i = j")
        case True
        with closed_j socks i_lt len show ?thesis by (simp add: nth_append)
      next
        case False
        with assms Some i_lt have "sockets s ! i = CLOSING \<or> sockets s ! i = CLOSED"
          by (simp add: othersClosing_def)
        with others [OF i_lt False] socks i_lt len show ?thesis by (simp add: nth_append)
      qed
    qed
  qed
qed

lemma othersClosing_flags:
  "othersClosing (s\<lparr> isReconnecting := f \<rparr>) = othersClosing s"
  "othersClosing (s\<lparr> reconnectAttempts := n \<rparr>) = othersClosing s"
  "othersClosing (s\<lparr> webSocketConnected := w \<rparr>) = othersClosing s"
  "othersClosing (s\<lparr> timers := ts \<rparr>) = othersClosing s"
  by (auto simp: othersClosing_def split: option.splits)

lemma othersClosing_deliver:
  assumes "othersClosing s" and "deliver e s = Some s'"
  shows "othersClosing s'"
proof (cases e)
  case DOMContentLoaded
  with assms show ?thesis using othersClosing_connect by auto
next
  case (Opens i)
  with assms have i: "i < length (sockets s)" and c: "sockets s ! i = CONNECTING"
    and s': "s' = onopen (s\<lparr> sockets := (sockets s)[i := OPEN] \<rparr>)"
    by (auto split: if_splits)
  from assms(1) i c have cur: "webSocket s = Some i"
    by (auto simp: othersClosing_def)
  have "othersClosing (s\<lparr> sockets := (sockets s)[i := OPEN] \<rparr>)"
    using assms(1) cur by (auto simp: othersClosing_def)
  then show ?thesis by (simp add: s' onopen_def othersClosing_flags)
next
  case (Closes i code)
  with assms have i: "i < length (sockets s)"
    and s': "s' = onclose code (s\<lparr> sockets := (sockets s)[i := CLOSED] \<rparr>)"
    by (auto split: if_splits)
  have "othersClosing (s\<lparr> sockets := (sockets s)[i := CLOSED] \<rparr>)"
    unfolding othersClosing_def
  proof (intro conjI allI impI)
    show "case webSocket (s\<lparr> sockets := (sockets s)[i := CLOSED] \<rparr>) of None \<Rightarrow> True
          | Some j \<Rightarrow> j < length (sockets (s\<lparr> sockets := (sockets s)[i := CLOSED] \<rparr>))"
      using assms(1) by (auto simp: othersClosing_def split: option.splits)
  next
    fix k
    assume k: "k < length (sockets (s\<lparr> sockets := (sockets s)[i := CLOSED] \<rparr>))"
       and cur: "webSocket (s\<lparr> sockets := (sockets s)[i := CLOSED] \<rparr>) \<noteq> Some k"
    then have old: "sockets s ! k = CLOSING \<or> sockets s ! k = CLOSED"
      using assms(1) by (simp add: othersClosing_def)
    show "sockets (s\<lparr> sockets := (sockets s)[i := CLOSED] \<rparr>) ! k = CLOSING \<or>
          sockets (s\<lparr> sockets := (sockets s)[i := CLOSED] \<rparr>) ! k = CLOSED"
      using old k by (cases "k = i") simp_all
  qed
  then show ?thesis by (simp add: s' onclose_def othersClosing_flags Let_def)
next
  case TimerFires
  with assms obtain d rest where "timers s = d # rest"
    and s': "s' = reconnectCallback (s\<lparr> timers := rest \<rparr>)"
    by (auto split: list.splits)
  have "othersClosing (s\<lparr> timers := rest, reconnectAttempts := reconnectAttempts s + 1,
          isReconnecting := False \<rparr>)"
    using assms(1) by (simp add: othersClosing_flags)
  then show ?thesis
    using othersClosing_connect by (simp add: s' reconnectCallback_def)
next
  case BecomesVisible
  have "othersClosing (s\<lparr> isReconnecting := False \<rparr>)"
    using assms(1) by (simp add: othersClosing_flags)
  with assms BecomesVisible show ?thesis
    using othersClosing_connect by (auto simp: onVisible_def split: if_splits)
qed

lemma othersClosing_run:
  "othersClosing s \<Longrightarrow> run evs s = Some s' \<Longrightarrow> othersClosing s'"
proof (induction evs arbitrary: s)
  case Nil
  then show ?case by simp
next
  case (Cons e evs)
  then obtain s1 where d: "deliver e s = Some s1" and r: "run evs s1 = Some s'"
    by (auto split: option.splits)
  from othersClosing_deliver [OF Cons.prems(1) d] Cons.IH r show ?case by blast
qed

lemma filter_all_but_one:
  "(\<And>i. i < length xs \<Longrightarrow> i \<noteq> j \<Longrightarrow> \<not> P (xs ! i)) \<Longrightarrow> length (filter P xs) \<le> 1"
proof (induction xs arbitrary: j)
  case Nil
  then show ?case by simp
next
  case (Cons x xs)
  show ?case
  proof (cases j)
    case 0
    have "\<And>y. y \<in> set xs \<Longrightarrow> \<not> P y"
    proof -
      fix y assume "y \<in> set xs"
      then obtain k where k: "k < length xs" "xs ! k = y" by (auto simp: in_set_conv_nth)
      with Cons.prems [of "Suc k"] 0 show "\<not> P y" by auto
    qed
    then have "filter P xs = []" by (simp add: filter_empty_conv)
    then show ?thesis by simp
  next
    case (Suc j')
    from Cons.prems [of 0] Suc have nx: "\<not> P x" by simp
    have "length (filter P xs) \<le> 1"
    proof (rule Cons.IH [of j'])
      fix i assume "i < length xs" "i \<noteq> j'"
      with Cons.prems [of "Suc i"] Suc show "\<not> P (xs ! i)" by simp
    qed
    with nx show ?thesis by simp
  qed
qed

lemma othersClosing_one_pending:
  assumes "othersClosing s"
  shows "length (filter pending (sockets s)) \<le> 1"
proof (cases "webSocket s")
  case None
  with assms have "\<And>i. i < length (sockets s) \<Longrightarrow> i \<noteq> 0 \<Longrightarrow> \<not> pending (sockets s ! i)"
    by (auto simp: othersClosing_def pending_def)
  then show ?thesis by (rule filter_all_but_one)
next
  case (Some j)
  with assms have "\<And>i. i < length (sockets s) \<Longrightarrow> i \<noteq> j \<Longrightarrow> \<not> pending (sockets s ! i)"
    by (auto simp: othersClosing_def pending_def)
  then show ?thesis by (rule filter_all_but_one)
qed

lemma othersClosing_pageLoaded: "othersClosing pageLoaded"
  by (simp add: othersClosing_def pageLoaded_def)

lemma othersClosing_one_live:
  assumes "othersClosing s"
  shows "length (filter live (sockets s)) \<le> 1"
proof (cases "webSocket s")
  case None
  with assms have "\<And>i. i < length (sockets s) \<Longrightarrow> i \<noteq> 0 \<Longrightarrow> \<not> live (sockets s ! i)"
    by (auto simp: othersClosing_def live_def)
  then show ?thesis by (rule filter_all_but_one)
next
  case (Some j)
  with assms have "\<And>i. i < length (sockets s) \<Longrightarrow> i \<noteq> j \<Longrightarrow> \<not> live (sockets s ! i)"
    by (auto simp: othersClosing_def live_def)
  then show ?thesis by (rule filter_all_but_one)
qed

text \<open>
  Claim C4, as stated: a close with a code other than 1000 schedules exactly one
  reconnection, after the fixed 60,000 ms; a close with code 1000 schedules none; and no
  two connection attempts run at once, because \<open>isReconnecting\<close> makes
  \<open>connectWebSocket\<close> return without effect while an attempt is pending.

  The guard does not stop the callers that matter. The page loads and its first socket
  fails with code 1006, which schedules a reconnection. The page becomes visible and the
  handler starts a new attempt: a second socket is connecting and \<open>isReconnecting\<close> is
  set. The timer then fires: its callback clears the flag and calls \<open>connectWebSocket\<close>,
  which closes the socket that was connecting and opens a third one.
\<close>

theorem reconnect_guard_bypassed:
  "\<exists>s s'. run [DOMContentLoaded, Closes 0 1006, BecomesVisible] pageLoaded = Some s
      \<and> isReconnecting s
      \<and> sockets s = [CLOSED, CONNECTING]
      \<and> timers s = [60000]
      \<and> deliver TimerFires s = Some s'
      \<and> sockets s' = [CLOSED, CLOSING, CONNECTING]
      \<and> webSocket s' = Some 2"
  by (simp add: connectWebSocket_def Let_def pageLoaded_def onclose_def onVisible_def
        checkConnectionHealth_def reconnectCallback_def reconnectDelay_def socketClose_def)

text \<open>
  Claim C4, amended: a close with a code other than 1000 schedules exactly one
  reconnection, after the fixed 60,000 ms; a close with code 1000 schedules none.
  \<open>connectWebSocket\<close> returns without effect while \<open>isReconnecting\<close> is set, but the
  timer's callback and the visibility handler (when the connection is not healthy) clear
  the flag before they call it: whatever the flag was, and whether or not an attempt is
  pending, they close the current socket and start one new attempt, which becomes the
  current socket and sets the flag. In every state the page can reach from its load, at
  most one socket is connecting, and at most one is connecting or open: not by the
  guard, but because \<open>connectWebSocket\<close> closes the current socket before it creates
  the next one.
\<close>

theorem reconnect_policy:
  "(code \<noteq> 1000 \<longrightarrow> timers (onclose code s) = timers s @ [60000])
   \<and> timers (onclose 1000 s) = timers s
   \<and> (isReconnecting s \<longrightarrow> connectWebSocket s = s)
   \<and> sockets (reconnectCallback s) =
        (case webSocket s of None \<Rightarrow> sockets s | Some i \<Rightarrow> socketClose i (sockets s)) @ [CONNECTING]
   \<and> webSocket (reconnectCallback s) = Some (length (sockets s))
   \<and> isReconnecting (reconnectCallback s)
   \<and> (\<not> checkConnectionHealth s \<longrightarrow>
        sockets (onVisible s) =
          (case webSocket s of None \<Rightarrow> sockets s | Some i \<Rightarrow> socketClose i (sockets s)) @ [CONNECTING]
        \<and> webSocket (onVisible s) = Some (length (sockets s))
        \<and> isReconnecting (onVisible s))
   \<and> (checkConnectionHealth s \<longrightarrow> onVisible s = s)
   \<and> (run evs pageLoaded = Some s' \<longrightarrow>
        length (filter pending (sockets s')) \<le> 1 \<and> length (filter live (sockets s')) \<le> 1)"
proof -
  have a: "code \<noteq> 1000 \<longrightarrow> timers (onclose code s) = timers s @ [60000]"
    by (simp add: onclose_def reconnectDelay_def)
  have b: "timers (onclose 1000 s) = timers s"
    by (simp add: onclose_def)
  have d: "isReconnecting s \<longrightarrow> connectWebSocket s = s"
    by (simp add: connectWebSocket_def Let_def)
  have len: "length (case webSocket s of None \<Rightarrow> sockets s | Some i \<Rightarrow> socketClose i (sockets s))
             = length (sockets s)"
    by (simp add: socketClose_def split: option.splits)
  have c1: "sockets (reconnectCallback s) =
        (case webSocket s of None \<Rightarrow> sockets s | Some i \<Rightarrow> socketClose i (sockets s)) @ [CONNECTING]"
    by (simp add: reconnectCallback_def connectWebSocket_def Let_def split: option.splits)
  have c2: "webSocket (reconnectCallback s) = Some (length (sockets s))"
    using len by (simp add: reconnectCallback_def connectWebSocket_def Let_def split: option.splits)
  have c3: "isReconnecting (reconnectCallback s)"
    by (simp add: reconnectCallback_def connectWebSocket_def Let_def)
  have v: "\<not> checkConnectionHealth s \<longrightarrow>
        sockets (onVisible s) =
          (case webSocket s of None \<Rightarrow> sockets s | Some i \<Rightarrow> socketClose i (sockets s)) @ [CONNECTING]
        \<and> webSocket (onVisible s) = Some (length (sockets s))
        \<and> isReconnecting (onVisible s)"
    using len by (simp add: onVisible_def connectWebSocket_def Let_def split: option.splits)
  have w: "checkConnectionHealth s \<longrightarrow> onVisible s = s"
    by (simp add: onVisible_def)
  have e: "run evs pageLoaded = Some s' \<longrightarrow>
        length (filter pending (sockets s')) \<le> 1 \<and> length (filter live (sockets s')) \<le> 1"
  proof
    assume r: "run evs pageLoaded = Some s'"
    from othersClosing_run [OF othersClosing_pageLoaded r]
    have o: "othersClosing s'" .
    from othersClosing_one_pending [OF o] othersClosing_one_live [OF o]
    show "length (filter pending (sockets s')) \<le> 1 \<and> length (filter live (sockets s')) \<le> 1"
      by (rule conjI)
  qed
  show ?thesis
    by (rule conjI a b d c1 c2 c3 v w e)+
qed

theorem reconnect_policy_witness:
  "timers (onclose 1006 (connectWebSocket pageLoaded)) = [60000]
   \<and> timers (onclose 1000 (connectWebSocket pageLoaded)) = []
   \<and> isReconnecting (connectWebSocket pageLoaded)
   \<and> connectWebSocket (connectWebSocket pageLoaded) = connectWebSocket pageLoaded
   \<and> sockets (reconnectCallback (connectWebSocket pageLoaded)) = [CLOSING, CONNECTING]
   \<and> sockets (onVisible (connectWebSocket pageLoaded)) = [CLOSING, CONNECTING]
   \<and> (\<exists>s'. run [DOMContentLoaded, Closes 0 1006, BecomesVisible, TimerFires] pageLoaded = Some s'
          \<and> sockets s' = [CLOSED, CLOSING, CONNECTING]
          \<and> length (filter pending (sockets s')) \<le> 1
          \<and> length (filter live (sockets s')) \<le> 1)"
proof -
  let ?s = "connectWebSocket pageLoaded"
  let ?evs = "[DOMContentLoaded, Closes 0 1006, BecomesVisible, TimerFires]"
  have flag: "isReconnecting ?s"
    by (simp add: connectWebSocket_def Let_def pageLoaded_def)
  have tm: "timers ?s = []"
    by (simp add: connectWebSocket_def Let_def pageLoaded_def)
  have socks: "sockets ?s = [CONNECTING]" and cur: "webSocket ?s = Some 0"
    by (simp_all add: connectWebSocket_def Let_def pageLoaded_def)
  have unhealthy: "\<not> checkConnectionHealth ?s"
    by (simp add: checkConnectionHealth_def socks cur)
  have cl: "(case webSocket ?s of None \<Rightarrow> sockets ?s | Some i \<Rightarrow> socketClose i (sockets ?s)) = [CLOSING]"
    by (simp add: socks cur socketClose_def)
  obtain s' where r: "run ?evs pageLoaded = Some s'" and fin: "sockets s' = [CLOSED, CLOSING, CONNECTING]"
    by (simp add: connectWebSocket_def Let_def pageLoaded_def onclose_def onVisible_def
        checkConnectionHealth_def reconnectCallback_def reconnectDelay_def socketClose_def)
  note T = reconnect_policy [of 1006 ?s ?evs s']
  have c1: "timers (onclose 1006 ?s) = [60000]" using T tm by simp
  have c2: "timers (onclose 1000 ?s) = []" using T tm by simp
  have c4: "connectWebSocket ?s = ?s" using T flag by blast
  have c5: "sockets (reconnectCallback ?s) = [CLOSING, CONNECTING]"
    using T by (simp only: cl) simp
  have c6: "sockets (onVisible ?s) = [CLOSING, CONNECTING]"
    using T unhealthy by (simp only: cl) simp
  have c7: "\<exists>s'. run ?evs pageLoaded = Some s'
          \<and> sockets s' = [CLOSED, CLOSING, CONNECTING]
          \<and> length (filter pending (sockets s')) \<le> 1
          \<and> length (filter live (sockets s')) \<le> 1"
    using T r fin by blast
  show ?thesis
    by (rule conjI c1 c2 flag c4 c5 c6 c7)+
qed


section \<open>The heatmap\<close>

lemma getHours_range: "0 \<le> getHours b t \<and> getHours b t \<le> 23"
proof -
  have "0 \<le> getHours b t \<and> getHours b t < 24"
    by (simp add: getHours_def)
  then show ?thesis by simp
qed

lemma maxAttacksOf_Max: "maxAttacksOf hm = Max (insert 1 (set (map attacks hm)))"
  using Max.set_eq_fold [of 1 "map attacks hm"] by (simp add: maxAttacksOf_def)

lemma maxAttacksOf_pos: "maxAttacksOf hm \<ge> 1"
  by (simp add: maxAttacksOf_Max)

lemma recalcIntensity_length: "length (recalcIntensity hm) = length hm"
  by (simp add: recalcIntensity_def Let_def)

lemma recalcIntensity_attacks: "map attacks (recalcIntensity hm) = map attacks hm"
  by (simp add: recalcIntensity_def Let_def comp_def)

lemma recalcIntensity_nth:
  assumes "i < length hm"
  shows "intensity (recalcIntensity hm ! i) = real (attacks (hm ! i)) / real (maxAttacksOf hm) * 100"
    and "attacks (recalcIntensity hm ! i) = attacks (hm ! i)"
  using assms maxAttacksOf_pos [of hm] by (simp_all add: recalcIntensity_def Let_def)

lemma setupHeatmapData_length: "length setupHeatmapData = 24"
  by (simp add: setupHeatmapData_def)

lemma addAttackToHeatmap_total:
  assumes "length hm = 24"
  shows "\<exists>hm'. addAttackToHeatmap b now attack hm = Inr hm' \<and> length hm' = 24"
proof -
  let ?t = "if truthy_num (timestamp attack) then the (timestamp attack) else now"
  from getHours_range [of b ?t] have "nat (getHours b ?t) < 24" by linarith
  then show ?thesis
    using getHours_range [of b ?t] assms
    by (simp add: addAttackToHeatmap_def Let_def recalcIntensity_length)
qed


text \<open>
  Claim C6: after every ingest into the heatmap, each of the 24 hour slots has
  \<open>intensity = attacks / max(max of attacks over all hours, 1) * 100\<close>, all 24 being
  recomputed on that ingest, so that some slot has intensity 100.

  The ingest counts the attack in the slot of its local hour and never fails on a
  heatmap of 24 slots. Quotients are exact here (the code computes in double
  precision, where \<open>m / m * 100\<close> is 100 as well).
\<close>

theorem addAttackToHeatmap_intensity:
  assumes "length hm = 24"
  shows "\<exists>hm'. addAttackToHeatmap b now attack hm = Inr hm'
           \<and> length hm' = 24
           \<and> (\<exists>h < 24. map attacks hm' = (map attacks hm)[h := attacks (hm ! h) + 1])
           \<and> (\<forall>h < 24. intensity (hm' ! h) =
                 real (attacks (hm' ! h)) / real (max (Max (set (map attacks hm'))) 1) * 100)
           \<and> (\<exists>h < 24. intensity (hm' ! h) = 100)"
proof -
  let ?t = "if truthy_num (timestamp attack) then the (timestamp attack) else now"
  let ?h = "nat (getHours b ?t)"
  let ?hm2 = "hm[?h := (hm ! ?h)\<lparr> attacks := attacks (hm ! ?h) + 1 \<rparr>]"
  let ?hm' = "recalcIntensity ?hm2"
  let ?m = "maxAttacksOf ?hm2"
  from getHours_range [of b ?t] have h24: "?h < 24" by linarith
  have res: "addAttackToHeatmap b now attack hm = Inr ?hm'"
    using getHours_range [of b ?t] h24 assms by (simp add: addAttackToHeatmap_def Let_def)
  have len2: "length ?hm2 = 24" using assms by simp
  have len': "length ?hm' = 24" using len2 by (simp add: recalcIntensity_length)
  have att': "map attacks ?hm' = map attacks ?hm2" by (rule recalcIntensity_attacks)
  have att2: "map attacks ?hm2 = (map attacks hm)[?h := attacks (hm ! ?h) + 1]"
    by (simp add: map_update)
  define S where "S = set (map attacks ?hm2)"
  have S': "set (map attacks ?hm') = S"
    by (simp only: S_def att')
  have fin: "finite S" by (simp add: S_def)
  have slot: "attacks (?hm2 ! ?h) \<ge> 1" using h24 assms by simp
  have "?hm2 ! ?h \<in> set ?hm2"
    using h24 len2 by (intro nth_mem) simp
  then have slot_in: "attacks (?hm2 ! ?h) \<in> S"
    unfolding S_def by (simp only: set_map) (rule imageI)
  then have ne: "S \<noteq> {}" by blast
  have "Max S \<ge> attacks (?hm2 ! ?h)"
    using fin slot_in by (rule Max_ge)
  with slot have max1: "Max S \<ge> 1" by linarith
  have "?m = Max (insert 1 S)"
    by (simp only: maxAttacksOf_Max S_def)
  also have "\<dots> = max 1 (Max S)"
    using fin ne by (rule Max_insert)
  also have "\<dots> = Max S"
    using max1 by (simp only: max_def if_True)
  finally have m_max: "?m = Max S" .
  have m_eq: "?m = max (Max (set (map attacks ?hm'))) 1"
    using max1 by (simp only: S' m_max max_def) simp
  have formula: "\<forall>k < 24. intensity (?hm' ! k) =
        real (attacks (?hm' ! k)) / real (max (Max (set (map attacks ?hm'))) 1) * 100"
  proof (intro allI impI)
    fix k :: nat assume k: "k < 24"
    then have k2: "k < length ?hm2" using len2 by simp
    have "intensity (?hm' ! k) = real (attacks (?hm2 ! k)) / real ?m * 100"
      by (rule recalcIntensity_nth(1) [OF k2])
    also have "attacks (?hm2 ! k) = attacks (?hm' ! k)"
      by (rule recalcIntensity_nth(2) [OF k2, symmetric])
    finally show "intensity (?hm' ! k) =
        real (attacks (?hm' ! k)) / real (max (Max (set (map attacks ?hm'))) 1) * 100"
      by (simp only: m_eq [symmetric])
  qed
  have "Max S \<in> S" using fin ne by (rule Max_in)
  then obtain x where x: "x \<in> set ?hm2" and ax: "attacks x = Max S"
    unfolding S_def by (auto simp only: set_map)
  then obtain k where k: "k < length ?hm2" and xk: "?hm2 ! k = x"
    by (auto simp only: in_set_conv_nth)
  have mpos: "real ?m > 0" using maxAttacksOf_pos [of ?hm2] by simp
  have "intensity (?hm' ! k) = real (attacks (?hm2 ! k)) / real ?m * 100"
    by (rule recalcIntensity_nth(1) [OF k])
  also have "\<dots> = real ?m / real ?m * 100"
    by (simp only: xk ax m_max)
  also have "\<dots> = 100" using mpos by simp
  finally have "intensity (?hm' ! k) = 100" .
  then have hundred: "\<exists>k < 24. intensity (?hm' ! k) = 100"
    using k len2 by auto
  have third: "\<exists>h < 24. map attacks ?hm' = (map attacks hm)[h := attacks (hm ! h) + 1]"
  proof (intro exI conjI)
    show "?h < 24" by (rule h24)
    show "map attacks ?hm' = (map attacks hm)[?h := attacks (hm ! ?h) + 1]"
      by (simp only: att' att2)
  qed
  show ?thesis
    by (rule exI [of _ ?hm']) (rule conjI res len' third formula hundred)+
qed

theorem addAttackToHeatmap_intensity_witness:
  "length setupHeatmapData = 24
   \<and> (\<exists>hm'. addAttackToHeatmap utcBrowser 0 (blankEvent\<lparr> timestamp := Some 36000000 \<rparr>) setupHeatmapData = Inr hm'
         \<and> length hm' = 24
         \<and> (\<exists>h < 24. map attacks hm' = (map attacks setupHeatmapData)[h := attacks (setupHeatmapData ! h) + 1])
         \<and> (\<forall>h < 24. intensity (hm' ! h) =
               real (attacks (hm' ! h)) / real (max (Max (set (map attacks hm'))) 1) * 100)
         \<and> (\<exists>h < 24. intensity (hm' ! h) = 100))"
  by (rule conjI [OF setupHeatmapData_length
        addAttackToHeatmap_intensity [OF setupHeatmapData_length]])


section \<open>The timeline\<close>

lemma generateTimelineData_length:
  "length (generateTimelineData b now interval) = getPoints interval"
  by (simp add: generateTimelineData_def Let_def)

lemma getDuration_pos: "getDurationForInterval interval > 0"
  by (simp add: getDurationForInterval_def)

lemma countInBucket_length:
  "countInBucket d t data = Some data' \<Longrightarrow> length data' = length data"
  by (induction data arbitrary: data') (auto split: if_splits)

lemma countInBucket_before:
  "\<forall>p \<in> set data. t < point_timestamp p \<Longrightarrow> countInBucket d t data = None"
  by (induction data) auto

text \<open>The buckets the loop pushes, in the order it pushes them.\<close>

lemma appendBuckets_shape:
  "data \<noteq> [] \<Longrightarrow> currentTime \<le> attackTime \<Longrightarrow>
     \<exists>new. new \<noteq> [] \<and>
       appendBuckets b interval attackTime currentTime data = drop (length new) (data @ new)"
proof (induction b interval attackTime currentTime data rule: appendBuckets.induct)
  case (1 b interval attackTime currentTime data)
  let ?d = "getDurationForInterval interval"
  let ?start = "(currentTime div ?d) * ?d"
  let ?isAttack = "attackTime \<ge> ?start \<and> attackTime < ?start + ?d"
  let ?p = "\<lparr> point_timestamp = ?start, label = formatTimeLabel b interval ?start,
              count = (if ?isAttack then 1 else 0), unit = getUnitForInterval interval \<rparr>"
  let ?shifted = "tl data @ [?p]"
  have sh: "?shifted = drop 1 (data @ [?p])"
    using "1.prems"(1) by (cases data) simp_all
  show ?case
  proof (cases ?isAttack)
    case True
    then have ya: "?isAttack = True" by blast
    have "appendBuckets b interval attackTime currentTime data = ?shifted"
      using "1.prems"(2) by (subst appendBuckets.simps) (simp add: Let_def ya)
    with sh have "appendBuckets b interval attackTime currentTime data = drop (length [?p]) (data @ [?p])"
      by simp
    then show ?thesis by blast
  next
    case False
    then have na: "?isAttack = False" by blast
    have step: "appendBuckets b interval attackTime currentTime data =
                appendBuckets b interval attackTime (currentTime + ?d) ?shifted"
      using "1.prems"(2) by (subst appendBuckets.simps) (simp add: Let_def na)
    show ?thesis
    proof (cases "currentTime + ?d \<le> attackTime")
      case True
      have ne: "?shifted \<noteq> []" by simp
      from "1.IH" [OF "1.prems"(2) refl refl refl refl refl False ne True]
      obtain new where new: "new \<noteq> []"
        and r: "appendBuckets b interval attackTime (currentTime + ?d) ?shifted
                = drop (length new) (?shifted @ new)" by blast
      have "drop (length new) (?shifted @ new) = drop (length (?p # new)) (data @ ?p # new)"
        using "1.prems"(1) by (cases data) simp_all
      with step r show ?thesis by (metis list.distinct(1))
    next
      case beyond: False
      have "appendBuckets b interval attackTime (currentTime + ?d) ?shifted = ?shifted"
        using beyond by (subst appendBuckets.simps) simp
      with step sh have "appendBuckets b interval attackTime currentTime data
                         = drop (length [?p]) (data @ [?p])" by simp
      then show ?thesis by blast
    qed
  qed
qed

lemma appendBuckets_length:
  assumes "data \<noteq> []"
  shows "length (appendBuckets b interval attackTime currentTime data) = length data"
proof (cases "currentTime \<le> attackTime")
  case True
  from appendBuckets_shape [OF assms True] obtain new where
    "appendBuckets b interval attackTime currentTime data = drop (length new) (data @ new)" by blast
  then show ?thesis by simp
next
  case False
  then show ?thesis by (subst appendBuckets.simps) simp
qed

lemma addAttackToTimeline_total:
  assumes "data \<noteq> []"
  shows "\<exists>data'. addAttackToTimeline b now interval attack data = Inr data' \<and> length data' = length data"
proof (cases "countInBucket (getDurationForInterval interval) (attackTimeOf now attack) data")
  case None
  then show ?thesis
    using assms appendBuckets_length [OF assms]
    by (simp add: addAttackToTimeline_def Let_def)
next
  case (Some counted)
  with countInBucket_length [OF Some] show ?thesis
    by (simp add: addAttackToTimeline_def Let_def)
qed


lemma addAttackEvent_total:
  assumes "timelineData st \<noteq> []" and "length (heatmapData st) = 24"
  shows "\<exists>st' ev'. addAttackEvent b now ev st = Inr (st', ev')
           \<and> length (timelineData st') = length (timelineData st)
           \<and> length (heatmapData st') = 24
           \<and> timelineInterval st' = timelineInterval st"
proof -
  let ?ev = "ev\<lparr> timestamp := Some now \<rparr>"
  obtain tline where t: "addAttackToTimeline b now (timelineInterval st) ?ev (timelineData st) = Inr tline"
    and tl: "length tline = length (timelineData st)"
    using addAttackToTimeline_total [OF assms(1)] by blast
  obtain hm where h: "addAttackToHeatmap b now ?ev (heatmapData st) = Inr hm"
    and hl: "length hm = 24"
    using addAttackToHeatmap_total [OF assms(2)] by blast
  show ?thesis
    using t tl h hl by (simp add: addAttackEvent_def Let_def updateLiveAttackDisplay_def)
qed

lemma replayEvent_total:
  assumes "timelineData st \<noteq> []" and "length (heatmapData st) = 24"
  shows "\<exists>st' ev'. replayEvent b now ev st = Inr (st', ev')
           \<and> length (timelineData st') = length (timelineData st)
           \<and> length (heatmapData st') = 24
           \<and> timelineInterval st' = timelineInterval st"
proof -
  obtain tline where t: "addAttackToTimeline b now (timelineInterval st) ev (timelineData st) = Inr tline"
    and tl: "length tline = length (timelineData st)"
    using addAttackToTimeline_total [OF assms(1)] by blast
  obtain hm where h: "addAttackToHeatmap b now ev (heatmapData st) = Inr hm"
    and hl: "length hm = 24"
    using addAttackToHeatmap_total [OF assms(2)] by blast
  show ?thesis
    using t tl h hl by (simp add: replayEvent_def)
qed

lemma ingestLive_total:
  "timelineData st \<noteq> [] \<Longrightarrow> length (heatmapData st) = 24 \<Longrightarrow>
     \<exists>st'. ingestLive b xs st = Inr st'
        \<and> length (timelineData st') = length (timelineData st)
        \<and> length (heatmapData st') = 24
        \<and> timelineInterval st' = timelineInterval st"
proof (induction xs arbitrary: st)
  case Nil
  then show ?case by simp
next
  case (Cons x xs)
  obtain now ev where x: "x = (now, ev)" by (cases x)
  from addAttackEvent_total [OF Cons.prems, of b now ev]
  obtain st1 ev1 where a: "addAttackEvent b now ev st = Inr (st1, ev1)"
    and l1: "length (timelineData st1) = length (timelineData st)"
    and h1: "length (heatmapData st1) = 24"
    and i1: "timelineInterval st1 = timelineInterval st" by blast
  from l1 Cons.prems(1) have ne1: "timelineData st1 \<noteq> []" by auto
  from Cons.IH [OF ne1 h1] obtain st' where "ingestLive b xs st1 = Inr st'"
    "length (timelineData st') = length (timelineData st1)"
    "length (heatmapData st') = 24" "timelineInterval st' = timelineInterval st1" by blast
  with a l1 i1 show ?case by (simp add: x)
qed

lemma replayEvents_total:
  "timelineData st \<noteq> [] \<Longrightarrow> length (heatmapData st) = 24 \<Longrightarrow>
     \<exists>st'. replayEvents b now evs st = Inr st'
        \<and> length (timelineData st') = length (timelineData st)
        \<and> length (heatmapData st') = 24
        \<and> timelineInterval st' = timelineInterval st"
proof (induction evs arbitrary: st)
  case Nil
  then show ?case by simp
next
  case (Cons ev evs)
  from replayEvent_total [OF Cons.prems, of b now ev]
  obtain st1 ev1 where a: "replayEvent b now ev st = Inr (st1, ev1)"
    and l1: "length (timelineData st1) = length (timelineData st)"
    and h1: "length (heatmapData st1) = 24"
    and i1: "timelineInterval st1 = timelineInterval st" by blast
  from l1 Cons.prems(1) have ne1: "timelineData st1 \<noteq> []" by auto
  from Cons.IH [OF ne1 h1] obtain st' where "replayEvents b now evs st1 = Inr st'"
    "length (timelineData st') = length (timelineData st1)"
    "length (heatmapData st') = 24" "timelineInterval st' = timelineInterval st1" by blast
  with a l1 i1 show ?case by simp
qed

lemma getPoints_values:
  "getPoints interval = (if interval = ''1m'' \<or> interval = ''1h'' then 60 else 24)"
  by (simp add: getPoints_def)


section \<open>The marker filter of restoration\<close>

















section \<open>Ingestion and restoration\<close>

lemma readyDashboard_wf:
  "timelineData readyDashboard \<noteq> []" "length (heatmapData readyDashboard) = 24"
proof -
  have "length (timelineData readyDashboard) = 24"
    by (simp add: readyDashboard_def newDashboard_def generateTimelineData_length getPoints_def)
  then show "timelineData readyDashboard \<noteq> []" by auto
  show "length (heatmapData readyDashboard) = 24"
    by (simp add: readyDashboard_def newDashboard_def setupHeatmapData_length)
qed

lemma addAttackEvent_unfold:
  "addAttackEvent b now ev0 st0 =
     (case addAttackToTimeline b now (timelineInterval st0) (ev0\<lparr> timestamp := Some now \<rparr>) (timelineData st0) of
        Inl err \<Rightarrow> Inl err
      | Inr tline \<Rightarrow>
         (case addAttackToHeatmap b now (ev0\<lparr> timestamp := Some now \<rparr>) (heatmapData st0) of
            Inl err \<Rightarrow> Inl err
          | Inr hm \<Rightarrow>
             Inr (st0\<lparr> attackHistory :=
                       (if length (attackHistory st0) + 1 > 1000
                        then tl (attackHistory st0 @ [ev0\<lparr> timestamp := Some now \<rparr>])
                        else attackHistory st0 @ [ev0\<lparr> timestamp := Some now \<rparr>]),
                     attackCache :=
                       (if cacheInitialized st0 \<and> \<not> restoringFromCache st0
                        then fst (storeEvent now (ev0\<lparr> timestamp := Some now \<rparr>) (attackCache st0))
                        else attackCache st0),
                     timelineData := tline, heatmapData := hm,
                     ipStats := updateIPTracking now (ip ev0) (country ev0)
                                  (ev0\<lparr> timestamp := Some now \<rparr>) (ipStats st0),
                     protocolStats := updateProtocolStats (protocol ev0) (protocolStats st0) \<rparr>,
                  ev0\<lparr> timestamp := Some now \<rparr>)))"
  by (auto simp: addAttackEvent_def Let_def updateLiveAttackDisplay_def split: sum.splits)

lemma addAttackEvent_event:
  "addAttackEvent b now ev st = Inr (st', ev') \<Longrightarrow> ev' = ev\<lparr> timestamp := Some now \<rparr>"
  by (auto simp: addAttackEvent_unfold split: sum.splits)

lemma replayEvent_event:
  "replayEvent b now ev st = Inr (st', ev') \<Longrightarrow> ev' = ev"
  by (auto simp: replayEvent_def split: sum.splits)

lemma addAttackEvent_restoring:
  assumes "restoringFromCache st" and "addAttackEvent b now ev st = Inr (st', ev')"
  shows "attackCache st' = attackCache st" and "restoringFromCache st'"
    and "ev' \<in> set (attackHistory st')"
proof -
  let ?ev = "ev\<lparr> timestamp := Some now \<rparr>"
  show "attackCache st' = attackCache st"
    using assms by (auto simp: addAttackEvent_unfold split: sum.splits)
  show "restoringFromCache st'"
    using assms by (auto simp: addAttackEvent_unfold split: sum.splits)
  have in_tl: "?ev \<in> set (tl (attackHistory st @ [?ev]))" if "length (attackHistory st) + 1 > 1000"
    using that by (cases "attackHistory st") auto
  from assms(2) have "attackHistory st' =
      (if length (attackHistory st) + 1 > 1000 then tl (attackHistory st @ [?ev])
       else attackHistory st @ [?ev])" and "ev' = ?ev"
    by (auto simp: addAttackEvent_unfold split: sum.splits)
  then show "ev' \<in> set (attackHistory st')"
    using in_tl by (cases "length (attackHistory st) + 1 > 1000") simp_all
qed

lemma slice_last_subset: "set (slice_last n xs) \<subseteq> set xs"
  by (simp add: slice_last_def set_drop_subset)

lemma storeEvent_adds_only:
  "set (storedEvents (fst (storeEvent now ev c))) \<subseteq> insert (eventToStore now ev) (set (storedEvents c))"
proof (cases "storageType c = Some indexeddb")
  case True
  then show ?thesis
    by (auto simp: storeEvent_def storeEventIndexedDB_def storedEvents_def)
next
  case False
  let ?pushed = "events (loadDoc c) @ [eventToStore now ev]"
  have ev: "events (loadDoc (fst (storeEvent now ev c))) =
              (if length ?pushed > maxEvents then slice_last maxEvents ?pushed else ?pushed)"
    using False by (simp add: storeEvent_def storeEventLocalStorage_def loadDoc_def Let_def)
  have st: "storageType (fst (storeEvent now ev c)) = storageType c"
    using False by (simp add: storeEvent_def storeEventLocalStorage_def Let_def)
  have "set (events (loadDoc (fst (storeEvent now ev c)))) \<subseteq> set ?pushed"
    unfolding ev using slice_last_subset [of maxEvents ?pushed] by (simp split: if_splits)
  then show ?thesis
    using False st by (auto simp: storedEvents_def)
qed

lemma addAttackEvent_adds_only:
  assumes "addAttackEvent b now ev st = Inr (st', ev')"
  shows "set (storedEvents (attackCache st')) \<subseteq>
           insert (eventToStore now ev') (set (storedEvents (attackCache st)))"
proof -
  let ?ev = "ev\<lparr> timestamp := Some now \<rparr>"
  have ev': "ev' = ?ev" using assms by (rule addAttackEvent_event)
  from assms have "attackCache st' = attackCache st \<or>
      attackCache st' = fst (storeEvent now ?ev (attackCache st))"
    by (auto simp: addAttackEvent_def Let_def updateLiveAttackDisplay_def split: sum.splits if_splits)
  then show ?thesis
    using storeEvent_adds_only [of now ?ev "attackCache st"] ev' by auto
qed

lemma cleanup_removes_only:
  "set (storedEvents (cleanup now c)) \<subseteq> set (storedEvents c)"
proof (cases "storageType c = Some indexeddb")
  case True
  then show ?thesis
    by (auto simp: cleanup_def cleanupIndexedDB_def storedEvents_def Let_def)
next
  case False
  let ?recent = "filter (\<lambda>e. truthy_num (timestamp e) \<and> the (timestamp e) > now - retentionPeriod)
                   (events (loadDoc c))"
  have ev: "events (loadDoc (cleanup now c)) =
              (if length ?recent > maxEvents then slice_last maxEvents ?recent else ?recent)"
    using False by (simp add: cleanup_def cleanupLocalStorage_def loadDoc_def Let_def)
  have st: "storageType (cleanup now c) = storageType c"
    using False by (simp add: cleanup_def cleanupLocalStorage_def Let_def)
  have "set (events (loadDoc (cleanup now c))) \<subseteq> set ?recent"
    unfolding ev using slice_last_subset [of maxEvents ?recent] by (simp split: if_splits)
  then have "set (events (loadDoc (cleanup now c))) \<subseteq> set (events (loadDoc c))"
    by auto
  then show ?thesis
    using False st by (simp add: storedEvents_def)
qed

lemma replayEvents_cache:
  "replayEvents b now evs st = Inr st' \<Longrightarrow> attackCache st' = attackCache st"
proof (induction evs arbitrary: st)
  case Nil
  then show ?case by simp
next
  case (Cons ev evs)
  then obtain st1 ev1 where r: "replayEvent b now ev st = Inr (st1, ev1)"
    and rest: "replayEvents b now evs st1 = Inr st'"
    by (auto split: sum.splits)
  from r have "attackCache st1 = attackCache st"
    by (auto simp: replayEvent_def split: sum.splits)
  with Cons.IH [OF rest] show ?case by simp
qed

lemma processBatch_unfold:
  "processBatch b now cachedEvents processedCount st =
     (case replayEvents b now
             (take (min (processedCount + BATCH_SIZE) (length cachedEvents) - processedCount)
                (drop processedCount cachedEvents)) st of
        Inl err \<Rightarrow> Inl err
      | Inr st' \<Rightarrow>
          (if min (processedCount + BATCH_SIZE) (length cachedEvents) < length cachedEvents
           then processBatch b now cachedEvents (min (processedCount + BATCH_SIZE) (length cachedEvents)) st'
           else Inr (finalizeRestoration now st')))"
  by (subst processBatch.simps) (simp only: Let_def)

lemma processBatch_cache:
  "processBatch b now cachedEvents processedCount st = Inr st' \<Longrightarrow> attackCache st' = attackCache st"
proof (induction b now cachedEvents processedCount st rule: processBatch.induct)
  case (1 b now cachedEvents processedCount st)
  let ?end = "min (processedCount + BATCH_SIZE) (length cachedEvents)"
  let ?chunk = "take (?end - processedCount) (drop processedCount cachedEvents)"
  from "1.prems" obtain st1 where r: "replayEvents b now ?chunk st = Inr st1"
    and rest: "(if ?end < length cachedEvents then processBatch b now cachedEvents ?end st1
                else Inr (finalizeRestoration now st1)) = Inr st'"
    unfolding processBatch_unfold [of b now cachedEvents processedCount st]
    by (cases "replayEvents b now ?chunk st") simp_all
  have c1: "attackCache st1 = attackCache st" using r by (rule replayEvents_cache)
  show ?case
  proof (cases "?end < length cachedEvents")
    case True
    with rest have "processBatch b now cachedEvents ?end st1 = Inr st'"
      by (simp only: if_True)
    from "1.IH" [OF refl r True this] c1 show ?thesis by simp
  next
    case False
    with rest have "st' = finalizeRestoration now st1"
      by (simp only: if_False) simp
    with c1 show ?thesis by (simp add: finalizeRestoration_def)
  qed
qed

lemma restoreFromCache_cache:
  "restoreFromCache b now st = Inr st' \<Longrightarrow> attackCache st' = attackCache st"
  by (auto simp: restoreFromCache_def Let_def dest!: processBatch_cache split: if_splits)

lemma replayEvents_append:
  "replayEvents b now (xs @ ys) st =
     (case replayEvents b now xs st of Inl err \<Rightarrow> Inl err | Inr st' \<Rightarrow> replayEvents b now ys st')"
  by (induction xs arbitrary: st) (auto split: sum.splits)

lemma processBatch_replay:
  "processedCount \<le> length cachedEvents \<Longrightarrow>
     processBatch b now cachedEvents processedCount st =
       (case replayEvents b now (drop processedCount cachedEvents) st of
          Inl err \<Rightarrow> Inl err
        | Inr st' \<Rightarrow> Inr (finalizeRestoration now st'))"
proof (induction b now cachedEvents processedCount st rule: processBatch.induct)
  case (1 b now cachedEvents processedCount st)
  let ?end = "min (processedCount + BATCH_SIZE) (length cachedEvents)"
  let ?chunk = "take (?end - processedCount) (drop processedCount cachedEvents)"
  have split: "drop processedCount cachedEvents = ?chunk @ drop ?end cachedEvents"
  proof -
    have "drop ?end cachedEvents = drop (?end - processedCount) (drop processedCount cachedEvents)"
      using "1.prems" by (simp add: min_def)
    then show ?thesis by (simp only: append_take_drop_id)
  qed
  show ?case
  proof (cases "replayEvents b now ?chunk st")
    case (Inl err)
    then show ?thesis
      by (subst processBatch_unfold, subst split, subst replayEvents_append) simp
  next
    case (Inr st1)
    show ?thesis
    proof (cases "?end < length cachedEvents")
      case True
      have le: "?end \<le> length cachedEvents" by simp
      from "1.IH" [OF refl Inr True le]
      have "processBatch b now cachedEvents ?end st1 =
              (case replayEvents b now (drop ?end cachedEvents) st1 of
                 Inl err \<Rightarrow> Inl err | Inr st' \<Rightarrow> Inr (finalizeRestoration now st'))" .
      then show ?thesis
        using Inr True
        by (subst processBatch_unfold, subst split, subst replayEvents_append) simp
    next
      case False
      then have "drop ?end cachedEvents = []" by simp
      then show ?thesis
        using Inr False
        by (subst processBatch_unfold, subst split, subst replayEvents_append) simp
    qed
  qed
qed

lemma restoreFromCache_replay:
  "restoreFromCache b now st =
     (if getStoredEvents now (attackCache st) = []
      then Inr (st\<lparr> restoringFromCache := False \<rparr>)
      else (case replayEvents b now (sortByTimestamp (getStoredEvents now (attackCache st)))
                   (st\<lparr> restoringFromCache := True,
                       attackHistory := map (\<lambda>e. e\<lparr> restored := True \<rparr>)
                          (sortByTimestamp (getStoredEvents now (attackCache st))) \<rparr>) of
              Inl err \<Rightarrow> Inl err
            | Inr st' \<Rightarrow> Inr (finalizeRestoration now st')))"
  by (simp add: restoreFromCache_def Let_def processBatch_replay)

lemma timeline_own_time:
  "truthy_num (timestamp ev) \<Longrightarrow>
     addAttackToTimeline b now interval ev data =
     addAttackToTimeline b (the (timestamp ev)) interval ev data"
  by (simp add: addAttackToTimeline_def attackTimeOf_def)

lemma heatmap_own_time:
  "truthy_num (timestamp ev) \<Longrightarrow>
     addAttackToHeatmap b now ev hm = addAttackToHeatmap b (the (timestamp ev)) ev hm"
  by (simp add: addAttackToHeatmap_def)

lemma ipTracking_own_time:
  "truthy_num (timestamp ev) \<Longrightarrow>
     updateIPTracking now ipArg countryArg ev stats =
     updateIPTracking (the (timestamp ev)) ipArg countryArg ev stats"
  by (simp add: updateIPTracking_def)

lemma restamp_own_time:
  "truthy_num (timestamp ev) \<Longrightarrow> ev\<lparr> timestamp := Some (the (timestamp ev)) \<rparr> = ev"
  by (cases "timestamp ev") (simp_all add: truthy_num_def)

lemma ip_argument:
  "truthy_str (ip ev) \<or> source_ip ev = ip ev \<Longrightarrow> or_str (ip ev) (source_ip ev) = ip ev"
  by (auto simp: or_str_def)

lemma replay_step_live:
  assumes agg: "aggregates sa = aggregates sb"
    and ts: "truthy_num (timestamp ev)"
    and ipc: "truthy_str (ip ev) \<or> source_ip ev = ip ev"
  shows "map_sum id (\<lambda>r. aggregates (fst r)) (replayEvent b now ev sa) =
         map_sum id (\<lambda>r. aggregates (fst r)) (addAttackEvent b (the (timestamp ev)) ev sb)"
proof -
  let ?t = "the (timestamp ev)"
  from agg have eqs: "timelineInterval sa = timelineInterval sb" "timelineData sa = timelineData sb"
    "heatmapData sa = heatmapData sb" "ipStats sa = ipStats sb" "protocolStats sa = protocolStats sb"
    by (simp_all add: aggregates_def)
  show ?thesis
    unfolding replayEvent_def addAttackEvent_unfold restamp_own_time [OF ts]
      timeline_own_time [OF ts, of b now] heatmap_own_time [OF ts, of b now]
      ipTracking_own_time [OF ts, of now] ip_argument [OF ipc] eqs
    by (simp add: aggregates_def eqs split: sum.splits)
qed

lemma replay_run_live:
  "aggregates sa = aggregates sb \<Longrightarrow>
     \<forall>ev \<in> set evs. truthy_num (timestamp ev) \<and> (truthy_str (ip ev) \<or> source_ip ev = ip ev) \<Longrightarrow>
     map_sum id aggregates (replayEvents b now evs sa) =
     map_sum id aggregates (ingestLive b (atOwnTime evs) sb)"
proof (induction evs arbitrary: sa sb)
  case Nil
  then show ?case by (simp add: atOwnTime_def)
next
  case (Cons ev evs)
  from Cons.prems(2) have ts: "truthy_num (timestamp ev)"
    and ipc: "truthy_str (ip ev) \<or> source_ip ev = ip ev"
    and rest: "\<forall>e \<in> set evs. truthy_num (timestamp e) \<and> (truthy_str (ip e) \<or> source_ip e = ip e)"
    by simp_all
  note step = replay_step_live [OF Cons.prems(1) ts ipc, of b now]
  show ?case
  proof (cases "replayEvent b now ev sa")
    case (Inl err)
    with step obtain err' where "addAttackEvent b (the (timestamp ev)) ev sb = Inl err'"
      by (cases "addAttackEvent b (the (timestamp ev)) ev sb") auto
    with Inl step show ?thesis by (simp add: atOwnTime_def)
  next
    case (Inr r)
    obtain sa1 ev1 where r: "r = (sa1, ev1)" by (cases r)
    from Inr step obtain r' where live: "addAttackEvent b (the (timestamp ev)) ev sb = Inr r'"
      by (cases "addAttackEvent b (the (timestamp ev)) ev sb") auto
    obtain sb1 ev2 where r': "r' = (sb1, ev2)" by (cases r')
    from Inr live step r r' have agg1: "aggregates sa1 = aggregates sb1" by simp
    from Cons.IH [OF agg1 rest] Inr live r r' show ?thesis
      by (simp add: atOwnTime_def)
  qed
qed

lemma replayEvent_components:
  assumes "replayEvent b now ev st = Inr (st', ev')"
  shows "addAttackToTimeline b now (timelineInterval st) ev (timelineData st) = Inr (timelineData st')"
    and "addAttackToHeatmap b now ev (heatmapData st) = Inr (heatmapData st')"
    and "ipStats st' = updateIPTracking now (or_str (ip ev) (source_ip ev)) (country ev) ev (ipStats st)"
    and "protocolStats st' = updateProtocolStats (protocol ev) (protocolStats st)"
    and "attackHistory st' = attackHistory st"
  using assms by (auto simp: replayEvent_def split: sum.splits)

lemma addAttackEvent_components:
  assumes "addAttackEvent b now ev st = Inr (st', ev')"
  shows "addAttackToTimeline b now (timelineInterval st) (ev\<lparr> timestamp := Some now \<rparr>) (timelineData st)
           = Inr (timelineData st')"
    and "addAttackToHeatmap b now (ev\<lparr> timestamp := Some now \<rparr>) (heatmapData st) = Inr (heatmapData st')"
    and "ipStats st' = updateIPTracking now (ip ev) (country ev) (ev\<lparr> timestamp := Some now \<rparr>) (ipStats st)"
    and "protocolStats st' = updateProtocolStats (protocol ev) (protocolStats st)"
  using assms by (auto simp: addAttackEvent_unfold split: sum.splits)

lemma replayEvents_history:
  "replayEvents b now evs st = Inr st' \<Longrightarrow> attackHistory st' = attackHistory st"
proof (induction evs arbitrary: st)
  case Nil
  then show ?case by simp
next
  case (Cons ev evs)
  then obtain st1 ev1 where r: "replayEvent b now ev st = Inr (st1, ev1)"
    and rest: "replayEvents b now evs st1 = Inr st'"
    by (auto split: sum.splits)
  from replayEvent_components(5) [OF r] Cons.IH [OF rest] show ?case by simp
qed

lemma addAttackToHeatmap_attacks:
  assumes "addAttackToHeatmap b now attack hm = Inr hm'" and "length hm = 24"
  shows "map attacks hm' =
           (map attacks hm)[nat (getHours b (if truthy_num (timestamp attack) then the (timestamp attack) else now))
              := attacks (hm ! nat (getHours b (if truthy_num (timestamp attack) then the (timestamp attack) else now))) + 1]"
proof -
  let ?t = "if truthy_num (timestamp attack) then the (timestamp attack) else now"
  from getHours_range [of b ?t] have "nat (getHours b ?t) < 24" by linarith
  with assms getHours_range [of b ?t]
  have "hm' = recalcIntensity (hm[nat (getHours b ?t) :=
            (hm ! nat (getHours b ?t))\<lparr> attacks := attacks (hm ! nat (getHours b ?t)) + 1 \<rparr>])"
    by (simp add: addAttackToHeatmap_def Let_def)
  then show ?thesis
    by (simp only: recalcIntensity_attacks) (simp add: map_update)
qed

lemma sortByTimestamp_Nil: "sortByTimestamp evs = [] \<longleftrightarrow> evs = []"
proof
  assume "sortByTimestamp evs = []"
  then have "length (sort_key (\<lambda>e. the (timestamp e)) evs) = 0"
    by (simp add: sortByTimestamp_def)
  then show "evs = []" by simp
next
  assume "evs = []"
  then show "sortByTimestamp evs = []" by (simp add: sortByTimestamp_def)
qed

lemma restore_run_live:
  assumes cached: "cached = sortByTimestamp (getStoredEvents now (attackCache st))"
    and ne: "cached \<noteq> []"
    and ok: "\<forall>ev \<in> set cached. truthy_num (timestamp ev) \<and> (truthy_str (ip ev) \<or> source_ip ev = ip ev)"
  shows "map_sum id (\<lambda>s. (timelineData s, heatmapData s, ipStats s)) (restoreFromCache b now st) =
         map_sum id (\<lambda>s. (timelineData s, heatmapData s, ipStats s)) (ingestLive b (atOwnTime cached) st)"
    and "map_sum id protocolStats (restoreFromCache b now st) =
         map_sum id (\<lambda>s. aggregateProtocolStats now (map (\<lambda>e. e\<lparr> restored := True \<rparr>) cached))
           (ingestLive b (atOwnTime cached) st)"
proof -
  let ?st2 = "st\<lparr> restoringFromCache := True,
                  attackHistory := map (\<lambda>e. e\<lparr> restored := True \<rparr>) cached \<rparr>"
  have stored: "getStoredEvents now (attackCache st) \<noteq> []"
    using ne cached by (simp add: sortByTimestamp_Nil)
  have r: "restoreFromCache b now st =
      (case replayEvents b now cached ?st2 of
         Inl err \<Rightarrow> Inl err | Inr st' \<Rightarrow> Inr (finalizeRestoration now st'))"
    using stored by (simp add: restoreFromCache_replay cached)
  have agg: "aggregates ?st2 = aggregates st" by (simp add: aggregates_def)
  note eq = replay_run_live [OF agg ok, of b now]
  show "map_sum id (\<lambda>s. (timelineData s, heatmapData s, ipStats s)) (restoreFromCache b now st) =
         map_sum id (\<lambda>s. (timelineData s, heatmapData s, ipStats s)) (ingestLive b (atOwnTime cached) st)"
  proof (cases "replayEvents b now cached ?st2")
    case (Inl err)
    with eq r show ?thesis
      by (cases "ingestLive b (atOwnTime cached) st") simp_all
  next
    case (Inr s1)
    with eq r show ?thesis
      by (cases "ingestLive b (atOwnTime cached) st")
         (simp_all add: aggregates_def finalizeRestoration_def)
  qed
  show "map_sum id protocolStats (restoreFromCache b now st) =
         map_sum id (\<lambda>s. aggregateProtocolStats now (map (\<lambda>e. e\<lparr> restored := True \<rparr>) cached))
           (ingestLive b (atOwnTime cached) st)"
  proof (cases "replayEvents b now cached ?st2")
    case (Inl err)
    with eq r show ?thesis
      by (cases "ingestLive b (atOwnTime cached) st") simp_all
  next
    case (Inr s1)
    from replayEvents_history [OF Inr]
    have "attackHistory s1 = map (\<lambda>e. e\<lparr> restored := True \<rparr>) cached" by simp
    with Inr eq r show ?thesis
      by (cases "ingestLive b (atOwnTime cached) st")
         (simp_all add: finalizeRestoration_def)
  qed
qed

text \<open>
  Claim C2, amended: for cached events that have a timestamp and carry their address in
  \<open>ip\<close>, the replay loop of \<open>restoreFromCache\<close> leaves the timeline, the heatmap, the
  per-address tracker and the protocol counters exactly as \<open>addAttackEvent\<close> leaves them
  when each event is ingested live at the clock reading of its own timestamp, from any
  two dashboards that agree on these aggregates; both fail or both succeed. For the
  whole of \<open>restoreFromCache\<close> this holds of the timeline, the heatmap and the
  per-address tracker, while the protocol counters end as the rebuild by
  \<open>finalizeRestoration\<close> leaves them: the counts of the restored attacks of the last
  15 minutes.
\<close>

theorem replay_equals_live_at_own_time:
  "((\<forall>ev \<in> set evs. truthy_num (timestamp ev) \<and> (truthy_str (ip ev) \<or> source_ip ev = ip ev))
      \<and> aggregates sa = aggregates sb \<longrightarrow>
        map_sum id aggregates (replayEvents b now evs sa) =
        map_sum id aggregates (ingestLive b (atOwnTime evs) sb))
   \<and> (cached = sortByTimestamp (getStoredEvents now (attackCache st)) \<and> cached \<noteq> []
      \<and> (\<forall>ev \<in> set cached. truthy_num (timestamp ev) \<and> (truthy_str (ip ev) \<or> source_ip ev = ip ev)) \<longrightarrow>
        map_sum id (\<lambda>s. (timelineData s, heatmapData s, ipStats s)) (restoreFromCache b now st) =
        map_sum id (\<lambda>s. (timelineData s, heatmapData s, ipStats s)) (ingestLive b (atOwnTime cached) st)
        \<and> map_sum id protocolStats (restoreFromCache b now st) =
          map_sum id (\<lambda>s. aggregateProtocolStats now (map (\<lambda>e. e\<lparr> restored := True \<rparr>) cached))
            (ingestLive b (atOwnTime cached) st))"
proof (intro conjI impI)
  assume "(\<forall>ev \<in> set evs. truthy_num (timestamp ev) \<and> (truthy_str (ip ev) \<or> source_ip ev = ip ev))
      \<and> aggregates sa = aggregates sb"
  then show "map_sum id aggregates (replayEvents b now evs sa) =
        map_sum id aggregates (ingestLive b (atOwnTime evs) sb)"
    using replay_run_live by blast
next
  assume a: "cached = sortByTimestamp (getStoredEvents now (attackCache st)) \<and> cached \<noteq> []
      \<and> (\<forall>ev \<in> set cached. truthy_num (timestamp ev) \<and> (truthy_str (ip ev) \<or> source_ip ev = ip ev))"
  then show "map_sum id (\<lambda>s. (timelineData s, heatmapData s, ipStats s)) (restoreFromCache b now st) =
        map_sum id (\<lambda>s. (timelineData s, heatmapData s, ipStats s)) (ingestLive b (atOwnTime cached) st)"
    using restore_run_live(1) by blast
next
  assume a: "cached = sortByTimestamp (getStoredEvents now (attackCache st)) \<and> cached \<noteq> []
      \<and> (\<forall>ev \<in> set cached. truthy_num (timestamp ev) \<and> (truthy_str (ip ev) \<or> source_ip ev = ip ev))"
  then show "map_sum id protocolStats (restoreFromCache b now st) =
          map_sum id (\<lambda>s. aggregateProtocolStats now (map (\<lambda>e. e\<lparr> restored := True \<rparr>) cached))
            (ingestLive b (atOwnTime cached) st)"
    using restore_run_live(2) by blast
qed

lemma replayEvents_single:
  "replayEvents b now [ev] st = map_sum id fst (replayEvent b now ev st)"
  by (auto split: sum.splits)

lemma ingestLive_single:
  "ingestLive b [(now, ev)] st = map_sum id fst (addAttackEvent b now ev st)"
  by (auto split: sum.splits)

lemma normalize_ssh: "normalizeProtocol (Some ''ssh'') = ''SSH''"
  by code_simp

lemma cachedDashboard_stored:
  "0 \<le> d \<Longrightarrow> d < 86400000 \<Longrightarrow> t \<noteq> 0 \<Longrightarrow>
   sortByTimestamp (getStoredEvents (t + d) (attackCache (cachedDashboard t))) = [eventToStore t (sshEvent t)]"
  by (simp add: cachedDashboard_def newDashboard_def storeEvent_def freshIndexedDB_def
      storeEventIndexedDB_def getStoredEvents_def getStoredEventsIndexedDB_def sortByTimestamp_def
      inIndexRange_def lowerBound_def eventToStore_def sshEvent_def blankEvent_def or_num_def
      truthy_num_def retentionPeriod_def Let_def)

lemma cachedDashboard_wf:
  "timelineData (cachedDashboard t) \<noteq> []" "length (heatmapData (cachedDashboard t)) = 24"
proof -
  have "length (timelineData (cachedDashboard t)) = 24"
    by (simp add: cachedDashboard_def newDashboard_def generateTimelineData_length getPoints_def)
  then show "timelineData (cachedDashboard t) \<noteq> []" by auto
  show "length (heatmapData (cachedDashboard t)) = 24"
    by (simp add: cachedDashboard_def newDashboard_def setupHeatmapData_length)
qed

text \<open>An event that carries its address only in \<open>source_ip\<close>: replay files it under the
  address, live ingestion under \<open>undefined\<close>.\<close>

lemma replay_live_differ_on_address:
  "map_sum id ipStats (replayEvents utcBrowser 1700000000000
       [blankEvent\<lparr> source_ip := Some ''203.0.113.7'', timestamp := Some 1700000000000 \<rparr>] readyDashboard)
   \<noteq> map_sum id ipStats (ingestLive utcBrowser
       [(1700000000000, blankEvent\<lparr> source_ip := Some ''203.0.113.7'', timestamp := Some 1700000000000 \<rparr>)]
       readyDashboard)"
proof -
  let ?e = "blankEvent\<lparr> source_ip := Some ''203.0.113.7'', timestamp := Some 1700000000000 \<rparr>"
  obtain sa ea where ra: "replayEvent utcBrowser 1700000000000 ?e readyDashboard = Inr (sa, ea)"
    using replayEvent_total [OF readyDashboard_wf] by blast
  obtain sb eb where rb: "addAttackEvent utcBrowser 1700000000000 ?e readyDashboard = Inr (sb, eb)"
    using addAttackEvent_total [OF readyDashboard_wf] by blast
  have empty: "ipStats readyDashboard = Map.empty"
    by (simp add: readyDashboard_def newDashboard_def)
  have a: "ipStats sa ''203.0.113.7'' \<noteq> None"
    unfolding replayEvent_components(3) [OF ra] empty
    by (simp add: updateIPTracking_def propertyKey_def or_str_def truthy_str_def blankEvent_def Let_def)
  have b: "ipStats sb ''203.0.113.7'' = None"
    unfolding addAttackEvent_components(3) [OF rb] empty
    by (simp add: updateIPTracking_def propertyKey_def blankEvent_def Let_def)
  from a b have "ipStats sa \<noteq> ipStats sb" by metis
  then show ?thesis
    by (simp add: replayEvents_single ingestLive_single ra rb)
qed

text \<open>An attack stamped 10:00 and ingested live at 12:00 is counted at 12:00.\<close>

lemma replay_live_differ_on_clock:
  "map_sum id heatmapData (replayEvents utcBrowser 43200000 [sshEvent 36000000] readyDashboard)
   \<noteq> map_sum id heatmapData (ingestLive utcBrowser [(43200000, sshEvent 36000000)] readyDashboard)"
proof -
  obtain sa ea where ra: "replayEvent utcBrowser 43200000 (sshEvent 36000000) readyDashboard = Inr (sa, ea)"
    using replayEvent_total [OF readyDashboard_wf] by blast
  obtain sb eb where rb: "addAttackEvent utcBrowser 43200000 (sshEvent 36000000) readyDashboard = Inr (sb, eb)"
    using addAttackEvent_total [OF readyDashboard_wf] by blast
  have hm: "heatmapData readyDashboard = setupHeatmapData"
    by (simp add: readyDashboard_def newDashboard_def)
  have len: "length setupHeatmapData = 24" by (rule setupHeatmapData_length)
  have zero: "attacks (setupHeatmapData ! 10) = 0"
    by (simp add: setupHeatmapData_def)
  have a: "map attacks (heatmapData sa) = (map attacks setupHeatmapData)[10 := attacks (setupHeatmapData ! 10) + 1]"
    using addAttackToHeatmap_attacks [OF replayEvent_components(2) [OF ra]] hm len
    by (simp add: sshEvent_def truthy_num_def getHours_def utcBrowser_def)
  have b: "map attacks (heatmapData sb) = (map attacks setupHeatmapData)[12 := attacks (setupHeatmapData ! 12) + 1]"
    using addAttackToHeatmap_attacks [OF addAttackEvent_components(2) [OF rb]] hm len
    by (simp add: truthy_num_def getHours_def utcBrowser_def)
  have "map attacks (heatmapData sa) ! 10 = 1"
    unfolding a using len zero by simp
  moreover have "map attacks (heatmapData sb) ! 10 = 0"
    unfolding b using len zero by simp
  ultimately have "heatmapData sa \<noteq> heatmapData sb" by auto
  then show ?thesis
    by (simp add: replayEvents_single ingestLive_single ra rb)
qed

text \<open>An attack one hour old: restoration ends with the protocol counters rebuilt from
  the last 15 minutes, which it is not in; live ingestion counts it.\<close>

lemma restore_live_differ_on_protocol:
  "map_sum id protocolStats (restoreFromCache utcBrowser 1700003600000 (cachedDashboard 1700000000000))
   \<noteq> map_sum id protocolStats (ingestLive utcBrowser
         (atOwnTime (sortByTimestamp (getStoredEvents 1700003600000
            (attackCache (cachedDashboard 1700000000000)))))
         (cachedDashboard 1700000000000))"
proof -
  let ?t = "1700000000000 :: int"
  let ?st = "cachedDashboard ?t"
  let ?e = "eventToStore ?t (sshEvent ?t)"
  have cached: "sortByTimestamp (getStoredEvents 1700003600000 (attackCache ?st)) = [?e]"
    using cachedDashboard_stored [of 3600000 ?t] by simp
  have ts: "timestamp ?e = Some ?t"
    by (simp add: eventToStore_def sshEvent_def or_num_def truthy_num_def)
  have ok: "\<forall>ev \<in> set [?e]. truthy_num (timestamp ev) \<and> (truthy_str (ip ev) \<or> source_ip ev = ip ev)"
    by (simp add: eventToStore_def sshEvent_def or_num_def truthy_num_def truthy_str_def)
  have own: "atOwnTime [?e] = [(?t, ?e)]"
    by (simp add: atOwnTime_def ts)
  obtain sb eb where rb: "addAttackEvent utcBrowser ?t ?e ?st = Inr (sb, eb)"
    using addAttackEvent_total [OF cachedDashboard_wf] by blast
  have live: "ingestLive utcBrowser (atOwnTime [?e]) ?st = Inr sb"
    by (simp add: own ingestLive_single rb)
  have "protocolStats ?st = Map.empty"
    by (simp add: cachedDashboard_def newDashboard_def)
  then have pb: "protocolStats sb ''SSH'' = Some 1"
    unfolding addAttackEvent_components(4) [OF rb]
    by (simp add: updateProtocolStats_def eventToStore_def sshEvent_def truthy_str_def normalize_ssh Let_def)
  have old: "aggregateProtocolStats 1700003600000 [?e\<lparr> restored := True \<rparr>] = Map.empty"
    by (simp add: aggregateProtocolStats_def ts Let_def)
  from restore_run_live(2) [OF cached [symmetric] _ ok, of utcBrowser]
  have "map_sum id protocolStats (restoreFromCache utcBrowser 1700003600000 ?st) = Inr Map.empty"
    by (simp add: live old)
  moreover have "protocolStats sb \<noteq> Map.empty" using pb by auto
  ultimately show ?thesis
    by (simp add: cached live)
qed

text \<open>
  Claim C2, as stated: replaying any list of stored events gives exactly the same
  per-address tracker, timeline, heatmap and protocol counters as ingesting the same
  events live in timestamp order.

  It fails in three ways: for an event with its address only in \<open>source_ip\<close> (the
  trackers differ), for a live event ingested at a clock reading other than its
  timestamp (\<open>addAttackEvent\<close> counts it at the clock reading), and for an event older
  than 15 minutes (restoration ends with the protocol counters rebuilt without it).
\<close>

theorem replay_differs_from_live:
  "map_sum id ipStats (replayEvents utcBrowser 1700000000000
       [blankEvent\<lparr> source_ip := Some ''203.0.113.7'', timestamp := Some 1700000000000 \<rparr>] readyDashboard)
   \<noteq> map_sum id ipStats (ingestLive utcBrowser
       [(1700000000000, blankEvent\<lparr> source_ip := Some ''203.0.113.7'', timestamp := Some 1700000000000 \<rparr>)]
       readyDashboard)
   \<and> map_sum id heatmapData (replayEvents utcBrowser 43200000 [sshEvent 36000000] readyDashboard)
   \<noteq> map_sum id heatmapData (ingestLive utcBrowser [(43200000, sshEvent 36000000)] readyDashboard)
   \<and> map_sum id protocolStats (restoreFromCache utcBrowser 1700003600000 (cachedDashboard 1700000000000))
   \<noteq> map_sum id protocolStats (ingestLive utcBrowser
         (atOwnTime (sortByTimestamp (getStoredEvents 1700003600000
            (attackCache (cachedDashboard 1700000000000)))))
         (cachedDashboard 1700000000000))"
  by (rule conjI replay_live_differ_on_address replay_live_differ_on_clock
      restore_live_differ_on_protocol)+

theorem replay_equals_live_at_own_time_witness:
  "map_sum id aggregates (replayEvents utcBrowser 1700000060000 [sshEvent 1700000000000] readyDashboard) =
   map_sum id aggregates (ingestLive utcBrowser (atOwnTime [sshEvent 1700000000000]) readyDashboard)
   \<and> (\<exists>s. ingestLive utcBrowser (atOwnTime [sshEvent 1700000000000]) readyDashboard = Inr s)
   \<and> sortByTimestamp (getStoredEvents 1700000060000 (attackCache (cachedDashboard 1700000000000)))
       = [eventToStore 1700000000000 (sshEvent 1700000000000)]
   \<and> map_sum id (\<lambda>s. (timelineData s, heatmapData s, ipStats s))
         (restoreFromCache utcBrowser 1700000060000 (cachedDashboard 1700000000000)) =
       map_sum id (\<lambda>s. (timelineData s, heatmapData s, ipStats s))
         (ingestLive utcBrowser (atOwnTime [eventToStore 1700000000000 (sshEvent 1700000000000)])
            (cachedDashboard 1700000000000))
   \<and> (\<exists>s. restoreFromCache utcBrowser 1700000060000 (cachedDashboard 1700000000000) = Inr s
          \<and> protocolStats s ''SSH'' = Some 1)"
proof -
  let ?t = "1700000000000 :: int"
  let ?n = "1700000060000 :: int"
  let ?e = "eventToStore ?t (sshEvent ?t)"
  note T = replay_equals_live_at_own_time [where evs = "[sshEvent ?t]" and sa = readyDashboard
      and sb = readyDashboard and b = utcBrowser and now = ?n and cached = "[?e]"
      and st = "cachedDashboard ?t"]
  have ok1: "(\<forall>ev \<in> set [sshEvent ?t]. truthy_num (timestamp ev) \<and> (truthy_str (ip ev) \<or> source_ip ev = ip ev))
             \<and> aggregates readyDashboard = aggregates readyDashboard"
    by (simp add: sshEvent_def truthy_num_def truthy_str_def)
  have cached: "sortByTimestamp (getStoredEvents ?n (attackCache (cachedDashboard ?t))) = [?e]"
    using cachedDashboard_stored [of 60000 ?t] by simp
  have ok2: "[?e] = sortByTimestamp (getStoredEvents ?n (attackCache (cachedDashboard ?t))) \<and> [?e] \<noteq> []
      \<and> (\<forall>ev \<in> set [?e]. truthy_num (timestamp ev) \<and> (truthy_str (ip ev) \<or> source_ip ev = ip ev))"
    using cached by (simp add: eventToStore_def sshEvent_def or_num_def truthy_num_def truthy_str_def)
  have c1: "map_sum id aggregates (replayEvents utcBrowser ?n [sshEvent ?t] readyDashboard) =
            map_sum id aggregates (ingestLive utcBrowser (atOwnTime [sshEvent ?t]) readyDashboard)"
    using T ok1 by blast
  have c2: "\<exists>s. ingestLive utcBrowser (atOwnTime [sshEvent ?t]) readyDashboard = Inr s"
    using ingestLive_total [OF readyDashboard_wf] by blast
  have c4: "map_sum id (\<lambda>s. (timelineData s, heatmapData s, ipStats s))
         (restoreFromCache utcBrowser ?n (cachedDashboard ?t)) =
       map_sum id (\<lambda>s. (timelineData s, heatmapData s, ipStats s))
         (ingestLive utcBrowser (atOwnTime [?e]) (cachedDashboard ?t))"
    using T ok2 by blast
  have p: "map_sum id protocolStats (restoreFromCache utcBrowser ?n (cachedDashboard ?t)) =
          map_sum id (\<lambda>s. aggregateProtocolStats ?n (map (\<lambda>e. e\<lparr> restored := True \<rparr>) [?e]))
            (ingestLive utcBrowser (atOwnTime [?e]) (cachedDashboard ?t))"
    using T ok2 by blast
  obtain sb where live: "ingestLive utcBrowser (atOwnTime [?e]) (cachedDashboard ?t) = Inr sb"
    using ingestLive_total [OF cachedDashboard_wf] by blast
  have ts: "timestamp ?e = Some ?t" "protocol ?e = Some ''ssh''"
    by (simp_all add: eventToStore_def sshEvent_def or_num_def truthy_num_def)
  have agg: "aggregateProtocolStats ?n [?e\<lparr> restored := True \<rparr>] ''SSH'' = Some 1"
    by (simp add: aggregateProtocolStats_def ts normalize_ssh Let_def)
  from p live have "map_sum id protocolStats (restoreFromCache utcBrowser ?n (cachedDashboard ?t)) =
      Inr (aggregateProtocolStats ?n [?e\<lparr> restored := True \<rparr>])" by simp
  then obtain s where "restoreFromCache utcBrowser ?n (cachedDashboard ?t) = Inr s"
    and "protocolStats s = aggregateProtocolStats ?n [?e\<lparr> restored := True \<rparr>]"
    by (cases "restoreFromCache utcBrowser ?n (cachedDashboard ?t)") auto
  with agg have c5: "\<exists>s. restoreFromCache utcBrowser ?n (cachedDashboard ?t) = Inr s
          \<and> protocolStats s ''SSH'' = Some 1" by auto
  show ?thesis
    by (rule conjI c1 c2 cached c4 c5)+
qed

lemma slice_last_last:
  "0 < n \<Longrightarrow> xs \<noteq> [] \<Longrightarrow> last xs \<in> set (slice_last n xs)"
proof -
  assume n: "0 < n" and ne: "xs \<noteq> []"
  then have "length xs - n < length xs" by (cases xs) auto
  then have "last (drop (length xs - n) xs) = last xs" by (rule last_drop)
  moreover have "drop (length xs - n) xs \<noteq> []" using \<open>length xs - n < length xs\<close> by simp
  ultimately show ?thesis unfolding slice_last_def by (metis last_in_set)
qed

lemma storeEvent_stores:
  "eventToStore now ev \<in> set (storedEvents (fst (storeEvent now ev c)))"
proof (cases "storageType c = Some indexeddb")
  case True
  then show ?thesis
    by (simp add: storeEvent_def storeEventIndexedDB_def storedEvents_def)
next
  case False
  let ?pushed = "events (loadDoc c) @ [eventToStore now ev]"
  have ev: "events (loadDoc (fst (storeEvent now ev c))) =
              (if length ?pushed > maxEvents then slice_last maxEvents ?pushed else ?pushed)"
    using False by (simp add: storeEvent_def storeEventLocalStorage_def loadDoc_def Let_def)
  have st: "storageType (fst (storeEvent now ev c)) = storageType c"
    using False by (simp add: storeEvent_def storeEventLocalStorage_def Let_def)
  have "last ?pushed \<in> set (slice_last maxEvents ?pushed)"
    by (rule slice_last_last) (simp_all add: maxEvents_def)
  then have "eventToStore now ev \<in> set (events (loadDoc (fst (storeEvent now ev c))))"
    unfolding ev by simp
  then show ?thesis
    using False st by (simp add: storedEvents_def)
qed

lemma addAttackEvent_history_last:
  assumes "addAttackEvent b now ev st = Inr (st', ev')"
  shows "last (attackHistory st') = ev\<lparr> timestamp := Some now \<rparr>"
proof -
  let ?ev = "ev\<lparr> timestamp := Some now \<rparr>"
  have l: "last (tl (xs @ [?ev])) = ?ev" if "length xs + 1 > 1000" for xs
    using that by (cases xs) auto
  from assms have h: "attackHistory st' =
      (if length (attackHistory st) + 1 > 1000 then tl (attackHistory st @ [?ev])
       else attackHistory st @ [?ev])"
    by (auto simp: addAttackEvent_unfold split: sum.splits)
  show ?thesis
    unfolding h using l by (cases "length (attackHistory st) + 1 > 1000") simp_all
qed

lemma addAttackEvent_cache:
  assumes "addAttackEvent b now ev st = Inr (st', ev')"
  shows "attackCache st' =
      (if cacheInitialized st \<and> \<not> restoringFromCache st
       then fst (storeEvent now (ev\<lparr> timestamp := Some now \<rparr>) (attackCache st))
       else attackCache st)"
  using assms by (auto simp: addAttackEvent_unfold split: sum.splits)

lemma eventToStore_restamped:
  "eventToStore now (ev\<lparr> timestamp := Some now \<rparr>) = ev\<lparr> timestamp := Some now, cached_at := Some now \<rparr>"
  by (simp add: eventToStore_def or_num_def)

text \<open>
  Claim C9, as stated: no operation mutates a field of an event once it is created;
  ingestion, persistence and replay leave its fields, the timestamp included, unchanged.

  \<open>addAttackEvent\<close> starts by assigning the clock to \<open>event.timestamp\<close>: an event that
  arrives with the timestamp 1699999999000 leaves the call at 1700000000000 with that
  reading in its place.
\<close>

theorem addAttackEvent_restamps:
  "\<exists>st' ev'. addAttackEvent utcBrowser 1700000000000 (sshEvent 1699999999000) readyDashboard = Inr (st', ev')
      \<and> timestamp ev' = Some 1700000000000
      \<and> timestamp ev' \<noteq> timestamp (sshEvent 1699999999000)"
proof -
  obtain st' ev' where r: "addAttackEvent utcBrowser 1700000000000 (sshEvent 1699999999000) readyDashboard
      = Inr (st', ev')"
    using addAttackEvent_total [OF readyDashboard_wf] by blast
  from addAttackEvent_event [OF r] have "timestamp ev' = Some 1700000000000" by simp
  moreover have "timestamp (sshEvent 1699999999000) = Some 1699999999000"
    by (simp add: sshEvent_def)
  ultimately show ?thesis using r by auto
qed

text \<open>
  Claim C9, amended: \<open>addAttackEvent\<close> overwrites the timestamp of the event it is given
  with the clock reading of the call and changes no other field; that re-stamped object
  is the one it appends to the history and, when the cache is initialized and no
  restoration is running, the one it hands to \<open>storeEvent\<close>, so that the store then
  holds its copy. \<open>storeEvent\<close> leaves the object it is given as it is and stores a copy
  of it, with the timestamp defaulted to the clock when the event has none and
  \<open>cached_at\<close> set; it adds nothing else to the store. The replay of a cached event
  leaves the event as it is.
\<close>

theorem event_fields_after_ingestion:
  "(addAttackEvent b now ev st = Inr (st1, ev1) \<longrightarrow>
        ev1 = ev\<lparr> timestamp := Some now \<rparr> \<and> ev1 \<in> set (attackHistory st1)
        \<and> last (attackHistory st1) = ev1
        \<and> attackCache st1 =
            (if cacheInitialized st \<and> \<not> restoringFromCache st
             then fst (storeEvent now ev1 (attackCache st)) else attackCache st))
   \<and> (addAttackEvent b now ev st = Inr (st1, ev1) \<and> cacheInitialized st \<and> \<not> restoringFromCache st \<longrightarrow>
        ev\<lparr> timestamp := Some now, cached_at := Some now \<rparr> \<in> set (storedEvents (attackCache st1)))
   \<and> snd (storeEvent now ev c) = ev
   \<and> ev\<lparr> timestamp := or_num (timestamp ev) (Some now), cached_at := Some now \<rparr>
        \<in> set (storedEvents (fst (storeEvent now ev c)))
   \<and> set (storedEvents (fst (storeEvent now ev c))) \<subseteq>
        insert (ev\<lparr> timestamp := or_num (timestamp ev) (Some now), cached_at := Some now \<rparr>)
          (set (storedEvents c))
   \<and> (replayEvent b now ev st = Inr (st2, ev2) \<longrightarrow> ev2 = ev)"
proof -
  have live: "addAttackEvent b now ev st = Inr (st1, ev1) \<longrightarrow>
        ev1 = ev\<lparr> timestamp := Some now \<rparr> \<and> ev1 \<in> set (attackHistory st1)
        \<and> last (attackHistory st1) = ev1
        \<and> attackCache st1 =
            (if cacheInitialized st \<and> \<not> restoringFromCache st
             then fst (storeEvent now ev1 (attackCache st)) else attackCache st)"
  proof
    assume r: "addAttackEvent b now ev st = Inr (st1, ev1)"
    have in_tl: "x \<in> set (tl (xs @ [x]))" if "length xs + 1 > 1000" for x :: event and xs
      using that by (cases xs) auto
    from r have h: "attackHistory st1 =
        (if length (attackHistory st) + 1 > 1000
         then tl (attackHistory st @ [ev\<lparr> timestamp := Some now \<rparr>])
         else attackHistory st @ [ev\<lparr> timestamp := Some now \<rparr>])"
      by (auto simp: addAttackEvent_unfold split: sum.splits)
    have m: "ev\<lparr> timestamp := Some now \<rparr> \<in> set (attackHistory st1)"
      unfolding h using in_tl by (cases "length (attackHistory st) + 1 > 1000") simp_all
    note e = addAttackEvent_event [OF r]
    from m have c1: "ev1 \<in> set (attackHistory st1)" by (simp only: e)
    from addAttackEvent_history_last [OF r] have c2: "last (attackHistory st1) = ev1" by (simp only: e)
    from addAttackEvent_cache [OF r] have c3: "attackCache st1 =
            (if cacheInitialized st \<and> \<not> restoringFromCache st
             then fst (storeEvent now ev1 (attackCache st)) else attackCache st)" by (simp only: e)
    show "ev1 = ev\<lparr> timestamp := Some now \<rparr> \<and> ev1 \<in> set (attackHistory st1)
        \<and> last (attackHistory st1) = ev1
        \<and> attackCache st1 =
            (if cacheInitialized st \<and> \<not> restoringFromCache st
             then fst (storeEvent now ev1 (attackCache st)) else attackCache st)"
      by (rule conjI e c1 c2 c3)+
  qed
  have handed: "addAttackEvent b now ev st = Inr (st1, ev1) \<and> cacheInitialized st \<and> \<not> restoringFromCache st \<longrightarrow>
        ev\<lparr> timestamp := Some now, cached_at := Some now \<rparr> \<in> set (storedEvents (attackCache st1))"
  proof
    assume a: "addAttackEvent b now ev st = Inr (st1, ev1) \<and> cacheInitialized st \<and> \<not> restoringFromCache st"
    then have r: "addAttackEvent b now ev st = Inr (st1, ev1)" by (rule conjunct1)
    from a addAttackEvent_cache [OF r]
    have "attackCache st1 = fst (storeEvent now (ev\<lparr> timestamp := Some now \<rparr>) (attackCache st))"
      by simp
    with storeEvent_stores [of now "ev\<lparr> timestamp := Some now \<rparr>" "attackCache st"]
    show "ev\<lparr> timestamp := Some now, cached_at := Some now \<rparr> \<in> set (storedEvents (attackCache st1))"
      by (simp only: eventToStore_restamped)
  qed
  have keep: "snd (storeEvent now ev c) = ev"
    by (simp add: storeEvent_def)
  have stored: "ev\<lparr> timestamp := or_num (timestamp ev) (Some now), cached_at := Some now \<rparr>
        \<in> set (storedEvents (fst (storeEvent now ev c)))"
    using storeEvent_stores [of now ev c] by (simp only: eventToStore_def)
  have copy: "set (storedEvents (fst (storeEvent now ev c))) \<subseteq>
        insert (ev\<lparr> timestamp := or_num (timestamp ev) (Some now), cached_at := Some now \<rparr>)
          (set (storedEvents c))"
    using storeEvent_adds_only [of now ev c] by (simp only: eventToStore_def)
  have replay: "replayEvent b now ev st = Inr (st2, ev2) \<longrightarrow> ev2 = ev"
    using replayEvent_event by blast
  show ?thesis
    by (rule conjI live handed keep stored copy replay)+
qed

theorem event_fields_after_ingestion_witness:
  "(\<exists>st1 ev1. addAttackEvent utcBrowser 1700000000000 (sshEvent 1699999999000) readyDashboard = Inr (st1, ev1)
        \<and> ev1 = (sshEvent 1699999999000)\<lparr> timestamp := Some 1700000000000 \<rparr>
        \<and> attackHistory st1 = [ev1]
        \<and> storedEvents (attackCache st1) = [ev1\<lparr> cached_at := Some 1700000000000 \<rparr>]
        \<and> (sshEvent 1699999999000)\<lparr> timestamp := Some 1700000000000, cached_at := Some 1700000000000 \<rparr>
              \<in> set (storedEvents (attackCache st1)))
   \<and> (\<exists>st2 ev2. replayEvent utcBrowser 1700000000000 (sshEvent 1699999999000) readyDashboard = Inr (st2, ev2)
        \<and> ev2 = sshEvent 1699999999000)"
proof -
  obtain st1 ev1 where l: "addAttackEvent utcBrowser 1700000000000 (sshEvent 1699999999000) readyDashboard
      = Inr (st1, ev1)"
    using addAttackEvent_total [OF readyDashboard_wf] by blast
  obtain st2 ev2 where r: "replayEvent utcBrowser 1700000000000 (sshEvent 1699999999000) readyDashboard
      = Inr (st2, ev2)"
    using replayEvent_total [OF readyDashboard_wf] by blast
  note T = event_fields_after_ingestion [where b = utcBrowser and now = 1700000000000
      and ev = "sshEvent 1699999999000" and st = readyDashboard and ?st1.0 = st1 and ?ev1.0 = ev1
      and ?st2.0 = st2 and ?ev2.0 = ev2 and c = freshIndexedDB]
  have flags: "cacheInitialized readyDashboard \<and> \<not> restoringFromCache readyDashboard"
    by (simp add: readyDashboard_def newDashboard_def)
  have cache0: "attackCache readyDashboard = freshIndexedDB"
    by (simp add: readyDashboard_def newDashboard_def)
  have hist0: "attackHistory readyDashboard = []"
    by (simp add: readyDashboard_def newDashboard_def)
  from T l have a: "ev1 = (sshEvent 1699999999000)\<lparr> timestamp := Some 1700000000000 \<rparr>"
    and c: "attackCache st1 =
            (if cacheInitialized readyDashboard \<and> \<not> restoringFromCache readyDashboard
             then fst (storeEvent 1700000000000 ev1 (attackCache readyDashboard))
             else attackCache readyDashboard)" by blast+
  from l hist0 have h: "attackHistory st1 = [(sshEvent 1699999999000)\<lparr> timestamp := Some 1700000000000 \<rparr>]"
    by (auto simp: addAttackEvent_unfold split: sum.splits)
  from c flags cache0 have "attackCache st1 = fst (storeEvent 1700000000000 ev1 freshIndexedDB)"
    by simp
  then have s: "storedEvents (attackCache st1) = [ev1\<lparr> cached_at := Some 1700000000000 \<rparr>]"
    by (simp add: a storeEvent_def storeEventIndexedDB_def freshIndexedDB_def storedEvents_def
        eventToStore_def or_num_def truthy_num_def)
  from T l flags
  have m: "(sshEvent 1699999999000)\<lparr> timestamp := Some 1700000000000, cached_at := Some 1700000000000 \<rparr>
              \<in> set (storedEvents (attackCache st1))" by blast
  from T r have b: "ev2 = sshEvent 1699999999000" by blast
  have h': "attackHistory st1 = [ev1]" using h by (simp only: a)
  have live: "\<exists>st1 ev1. addAttackEvent utcBrowser 1700000000000 (sshEvent 1699999999000) readyDashboard = Inr (st1, ev1)
        \<and> ev1 = (sshEvent 1699999999000)\<lparr> timestamp := Some 1700000000000 \<rparr>
        \<and> attackHistory st1 = [ev1]
        \<and> storedEvents (attackCache st1) = [ev1\<lparr> cached_at := Some 1700000000000 \<rparr>]
        \<and> (sshEvent 1699999999000)\<lparr> timestamp := Some 1700000000000, cached_at := Some 1700000000000 \<rparr>
              \<in> set (storedEvents (attackCache st1))"
    by (rule exI [of _ st1], rule exI [of _ ev1]) (rule conjI l a h' s m)+
  have replay: "\<exists>st2 ev2. replayEvent utcBrowser 1700000000000 (sshEvent 1699999999000) readyDashboard = Inr (st2, ev2)
        \<and> ev2 = sshEvent 1699999999000"
    by (rule exI [of _ st2], rule exI [of _ ev2]) (rule conjI r b)+
  from live replay show ?thesis by (rule conjI)
qed

lemma restoreFromCache_total:
  assumes "timelineData st \<noteq> []" and "length (heatmapData st) = 24"
  shows "\<exists>st'. restoreFromCache b now st = Inr st'"
proof (cases "getStoredEvents now (attackCache st) = []")
  case True
  then show ?thesis by (simp add: restoreFromCache_replay)
next
  case False
  let ?cached = "sortByTimestamp (getStoredEvents now (attackCache st))"
  let ?st2 = "st\<lparr> restoringFromCache := True,
                  attackHistory := map (\<lambda>e. e\<lparr> restored := True \<rparr>) ?cached \<rparr>"
  have "timelineData ?st2 \<noteq> []" "length (heatmapData ?st2) = 24"
    using assms by simp_all
  from replayEvents_total [OF this, of b now ?cached]
  obtain s where "replayEvents b now ?cached ?st2 = Inr s" by blast
  with False show ?thesis by (simp add: restoreFromCache_replay)
qed

text \<open>
  Claim C10: a live event passed to \<open>addAttackEvent\<close> while \<open>restoringFromCache\<close> is set
  leaves the persistent store unchanged: it is aggregated and never written, and it
  stays absent from the store afterwards.

  The call leaves the store and the flag as they were and records the event in the
  history. Nothing writes it later: \<open>finalizeRestoration\<close> and the whole of
  \<open>restoreFromCache\<close> leave the store as it was, a later \<open>addAttackEvent\<close> adds at most
  the copy of its own event, and \<open>cleanup\<close> only removes.
\<close>

theorem restoring_event_not_persisted:
  "(restoringFromCache st \<and> addAttackEvent b now ev st = Inr (st1, ev1) \<longrightarrow>
      attackCache st1 = attackCache st \<and> restoringFromCache st1 \<and> ev1 \<in> set (attackHistory st1))
   \<and> attackCache (finalizeRestoration now st) = attackCache st
   \<and> (restoreFromCache b now st = Inr st2 \<longrightarrow> attackCache st2 = attackCache st)
   \<and> (addAttackEvent b now ev st = Inr (st1, ev1) \<longrightarrow>
        set (storedEvents (attackCache st1)) \<subseteq>
          insert (eventToStore now ev1) (set (storedEvents (attackCache st))))
   \<and> set (storedEvents (cleanup now (attackCache st))) \<subseteq> set (storedEvents (attackCache st))"
proof -
  have a: "restoringFromCache st \<and> addAttackEvent b now ev st = Inr (st1, ev1) \<longrightarrow>
      attackCache st1 = attackCache st \<and> restoringFromCache st1 \<and> ev1 \<in> set (attackHistory st1)"
    using addAttackEvent_restoring by blast
  have f: "attackCache (finalizeRestoration now st) = attackCache st"
    by (simp add: finalizeRestoration_def)
  have r: "restoreFromCache b now st = Inr st2 \<longrightarrow> attackCache st2 = attackCache st"
    using restoreFromCache_cache by blast
  have s: "addAttackEvent b now ev st = Inr (st1, ev1) \<longrightarrow>
        set (storedEvents (attackCache st1)) \<subseteq>
          insert (eventToStore now ev1) (set (storedEvents (attackCache st)))"
    using addAttackEvent_adds_only by blast
  have c: "set (storedEvents (cleanup now (attackCache st))) \<subseteq> set (storedEvents (attackCache st))"
    by (rule cleanup_removes_only)
  show ?thesis by (rule conjI a f r s c)+
qed

theorem restoring_event_not_persisted_witness:
  "restoringFromCache ((cachedDashboard 1700000000000)\<lparr> restoringFromCache := True \<rparr>)
   \<and> (\<exists>st1 ev1. addAttackEvent utcBrowser 1700000060000 (sshEvent 1700000060000)
          ((cachedDashboard 1700000000000)\<lparr> restoringFromCache := True \<rparr>) = Inr (st1, ev1)
        \<and> attackCache st1 = attackCache (cachedDashboard 1700000000000)
        \<and> storedEvents (attackCache st1) = [eventToStore 1700000000000 (sshEvent 1700000000000)]
        \<and> restoringFromCache st1 \<and> ev1 \<in> set (attackHistory st1))
   \<and> (\<exists>st2. restoreFromCache utcBrowser 1700000060000
          ((cachedDashboard 1700000000000)\<lparr> restoringFromCache := True \<rparr>) = Inr st2
        \<and> attackCache st2 = attackCache (cachedDashboard 1700000000000))"
proof -
  let ?rd = "(cachedDashboard 1700000000000)\<lparr> restoringFromCache := True \<rparr>"
  have flag: "restoringFromCache ?rd" by simp
  have wf: "timelineData ?rd \<noteq> []" "length (heatmapData ?rd) = 24"
    using cachedDashboard_wf [of 1700000000000] by simp_all
  have cache: "attackCache ?rd = attackCache (cachedDashboard 1700000000000)" by simp
  have stored: "storedEvents (attackCache (cachedDashboard 1700000000000))
      = [eventToStore 1700000000000 (sshEvent 1700000000000)]"
    by (simp add: cachedDashboard_def newDashboard_def storeEvent_def freshIndexedDB_def
        storeEventIndexedDB_def storedEvents_def)
  obtain st1 ev1 where l: "addAttackEvent utcBrowser 1700000060000 (sshEvent 1700000060000) ?rd = Inr (st1, ev1)"
    using addAttackEvent_total [OF wf] by blast
  obtain st2 where r: "restoreFromCache utcBrowser 1700000060000 ?rd = Inr st2"
    using restoreFromCache_total [OF wf] by blast
  note T = restoring_event_not_persisted [where st = ?rd and b = utcBrowser and now = 1700000060000
      and ev = "sshEvent 1700000060000" and ?st1.0 = st1 and ?ev1.0 = ev1 and ?st2.0 = st2]
  from T flag l have a: "attackCache st1 = attackCache ?rd \<and> restoringFromCache st1
      \<and> ev1 \<in> set (attackHistory st1)" by blast
  from T r have b: "attackCache st2 = attackCache ?rd" by blast
  have c2: "\<exists>st1 ev1. addAttackEvent utcBrowser 1700000060000 (sshEvent 1700000060000) ?rd = Inr (st1, ev1)
        \<and> attackCache st1 = attackCache (cachedDashboard 1700000000000)
        \<and> storedEvents (attackCache st1) = [eventToStore 1700000000000 (sshEvent 1700000000000)]
        \<and> restoringFromCache st1 \<and> ev1 \<in> set (attackHistory st1)"
    using l a cache stored by auto
  have c3: "\<exists>st2. restoreFromCache utcBrowser 1700000060000 ?rd = Inr st2
        \<and> attackCache st2 = attackCache (cachedDashboard 1700000000000)"
    using r b cache by auto
  show ?thesis
    by (rule conjI flag c2 c3)+
qed



section \<open>The timeline over runs of events\<close>

lemma appendBuckets_explicit:
  "data \<noteq> [] \<Longrightarrow> currentTime \<le> attackTime \<Longrightarrow>
   n = nat ((attackTime - currentTime) div getDurationForInterval interval) \<Longrightarrow>
     appendBuckets b interval attackTime currentTime data =
       drop (Suc n) (data @ map (\<lambda>k.
          \<lparr> point_timestamp = (currentTime div getDurationForInterval interval + int k) * getDurationForInterval interval,
            label = formatTimeLabel b interval
               ((currentTime div getDurationForInterval interval + int k) * getDurationForInterval interval),
            count = (if (currentTime div getDurationForInterval interval + int k) * getDurationForInterval interval \<le> attackTime
                       \<and> attackTime < (currentTime div getDurationForInterval interval + int k) * getDurationForInterval interval
                                       + getDurationForInterval interval
                     then 1 else 0),
            unit = getUnitForInterval interval \<rparr>) [0..<Suc n])"
proof (induction n arbitrary: currentTime data)
  case 0
  let ?d = "getDurationForInterval interval"
  have dpos: "?d > 0" by (rule getDuration_pos)
  let ?start = "(currentTime div ?d) * ?d"
  let ?isAttack = "attackTime \<ge> ?start \<and> attackTime < ?start + ?d"
  let ?p = "\<lparr> point_timestamp = ?start, label = formatTimeLabel b interval ?start,
              count = (if ?isAttack then 1 else 0), unit = getUnitForInterval interval \<rparr>"
  have sh: "tl data @ [?p] = drop 1 (data @ [?p])"
    using "0.prems"(1) by (cases data) simp_all
  from "0.prems" have "(attackTime - currentTime) div ?d \<le> 0" by simp
  with dpos "0.prems"(2) have lt: "attackTime - currentTime < ?d"
    using pos_imp_zdiv_pos_iff [of ?d "attackTime - currentTime"] by linarith
  have r: "appendBuckets b interval attackTime currentTime data = tl data @ [?p]"
  proof (cases ?isAttack)
    case True
    then have ya: "?isAttack = True" by blast
    show ?thesis using "0.prems"(2) by (subst appendBuckets.simps) (simp add: Let_def ya)
  next
    case False
    then have na: "?isAttack = False" by blast
    have step: "appendBuckets b interval attackTime currentTime data =
                appendBuckets b interval attackTime (currentTime + ?d) (tl data @ [?p])"
      using "0.prems"(2) by (subst appendBuckets.simps) (simp add: Let_def na)
    have "\<not> currentTime + ?d \<le> attackTime" using lt by linarith
    then have "appendBuckets b interval attackTime (currentTime + ?d) (tl data @ [?p]) = tl data @ [?p]"
      by (subst appendBuckets.simps) simp
    with step show ?thesis by simp
  qed
  show ?case unfolding r sh by simp
next
  case (Suc m)
  let ?d = "getDurationForInterval interval"
  have dpos: "?d > 0" by (rule getDuration_pos)
  let ?start = "(currentTime div ?d) * ?d"
  let ?isAttack = "attackTime \<ge> ?start \<and> attackTime < ?start + ?d"
  let ?p = "\<lparr> point_timestamp = ?start, label = formatTimeLabel b interval ?start,
              count = (if ?isAttack then 1 else 0), unit = getUnitForInterval interval \<rparr>"
  from Suc.prems(3) have q: "(attackTime - currentTime) div ?d = int m + 1"
    by linarith
  have ge: "attackTime - currentTime \<ge> ?d"
  proof (rule ccontr)
    assume "\<not> attackTime - currentTime \<ge> ?d"
    with Suc.prems(2) have "(attackTime - currentTime) div ?d = 0"
      by (simp add: div_pos_pos_trivial)
    with q show False by simp
  qed
  have le_start: "?start \<le> currentTime"
  proof -
    have "currentTime = ?start + currentTime mod ?d" by simp
    moreover have "currentTime mod ?d \<ge> 0" using dpos by simp
    ultimately show ?thesis by linarith
  qed
  have na: "?isAttack = False" using ge le_start by simp
  have step: "appendBuckets b interval attackTime currentTime data =
                appendBuckets b interval attackTime (currentTime + ?d) (tl data @ [?p])"
    using Suc.prems(2) by (subst appendBuckets.simps) (simp add: Let_def na)
  have le': "currentTime + ?d \<le> attackTime" using ge by linarith
  have q': "m = nat ((attackTime - (currentTime + ?d)) div ?d)"
  proof -
    have "(attackTime - (currentTime + ?d)) div ?d = (attackTime - currentTime - ?d) div ?d"
      by (simp add: algebra_simps)
    also have "\<dots> = (attackTime - currentTime) div ?d - 1"
      using dpos div_add_self2 [of ?d "attackTime - currentTime - ?d"] by simp
    finally show ?thesis using q by simp
  qed
  have dv: "(currentTime + ?d) div ?d = currentTime div ?d + 1"
    using dpos by simp
  have ne: "tl data @ [?p] \<noteq> []" by simp
  note ih = Suc.IH [OF ne le' q']
  obtain x xs where data: "data = x # xs" using Suc.prems(1) by (cases data) auto
  have upt: "[0..<Suc (Suc m)] = 0 # map Suc [0..<Suc m]"
    by (simp only: upt_rec [of 0 "Suc (Suc m)"] map_Suc_upt) simp
  show ?case
    unfolding step ih dv
    by (simp only: upt map_map list.map o_def) (simp add: data na algebra_simps)
qed


lemma inStepD:
  assumes "inStep d data"
  shows "data \<noteq> []" and "d dvd point_timestamp (data ! 0)"
    and "\<And>i. i < length data \<Longrightarrow> point_timestamp (data ! i) = point_timestamp (data ! 0) + int i * d"
proof -
  from assms show ne: "data \<noteq> []" unfolding inStep_def by (rule conjunct1)
  then have hd: "hd data = data ! 0" by (rule hd_conv_nth)
  from assms have "d dvd point_timestamp (hd data)" unfolding inStep_def by blast
  then show "d dvd point_timestamp (data ! 0)" by (simp only: hd)
  fix i assume i: "i < length data"
  from assms have eq: "map point_timestamp data =
      map (\<lambda>i. point_timestamp (hd data) + int i * d) [0..<length data]"
    unfolding inStep_def by blast
  have "point_timestamp (data ! i) = map point_timestamp data ! i"
    using i by (rule nth_map [symmetric])
  also have "\<dots> = map (\<lambda>i. point_timestamp (hd data) + int i * d) [0..<length data] ! i"
    by (simp only: eq)
  also have "\<dots> = point_timestamp (hd data) + int i * d"
    using i by simp
  finally show "point_timestamp (data ! i) = point_timestamp (data ! 0) + int i * d"
    by (simp only: hd)
qed

lemma inStepI:
  assumes ne: "data \<noteq> []" and dv: "d dvd point_timestamp (data ! 0)"
    and st: "\<And>i. i < length data \<Longrightarrow> point_timestamp (data ! i) = point_timestamp (data ! 0) + int i * d"
  shows "inStep d data"
proof -
  from ne have hd: "hd data = data ! 0" by (rule hd_conv_nth)
  have "map point_timestamp data = map (\<lambda>i. point_timestamp (data ! 0) + int i * d) [0..<length data]"
  proof (rule nth_equalityI)
    show "length (map point_timestamp data) =
          length (map (\<lambda>i. point_timestamp (data ! 0) + int i * d) [0..<length data])" by simp
  next
    fix i assume "i < length (map point_timestamp data)"
    then have i: "i < length data" by simp
    have "map (\<lambda>i. point_timestamp (data ! 0) + int i * d) [0..<length data] ! i
          = point_timestamp (data ! 0) + int i * d" using i by simp
    moreover have "map point_timestamp data ! i = point_timestamp (data ! i)"
      using i by (rule nth_map)
    ultimately show "map point_timestamp data ! i =
        map (\<lambda>i. point_timestamp (data ! 0) + int i * d) [0..<length data] ! i"
      using st [OF i] by (simp only:)
  qed
  with ne dv show ?thesis unfolding inStep_def hd by (intro conjI)
qed

lemma inStep_timestamps:
  assumes "map point_timestamp xs = map point_timestamp ys"
  shows "inStep d xs = inStep d ys"
proof (cases "xs = []")
  case True
  with assms show ?thesis by (simp add: inStep_def)
next
  case False
  from assms have len: "length xs = length ys" by (rule map_eq_imp_length_eq)
  with False have ney: "ys \<noteq> []" by auto
  have "point_timestamp (hd xs) = hd (map point_timestamp xs)"
    using False by (simp add: hd_map)
  also have "\<dots> = hd (map point_timestamp ys)" by (simp only: assms)
  also have "\<dots> = point_timestamp (hd ys)" using ney by (simp add: hd_map)
  finally have h: "point_timestamp (hd xs) = point_timestamp (hd ys)" .
  show ?thesis
    unfolding inStep_def by (simp only: assms h len)  (simp add: False ney)
qed

lemma generateTimelineData_inStep:
  "inStep (getDurationForInterval interval) (generateTimelineData b now interval)"
proof -
  let ?d = "getDurationForInterval interval"
  let ?n = "getPoints interval"
  let ?g = "generateTimelineData b now interval"
  have dpos: "?d > 0" by (rule getDuration_pos)
  have npos: "0 < ?n" by (simp add: getPoints_def)
  have len: "length ?g = ?n" by (rule generateTimelineData_length)
  have ts: "point_timestamp (?g ! j) = (now div ?d - int (?n - 1 - j)) * ?d" if "j < ?n" for j
  proof -
    have r: "rev [0..<?n] ! j = ?n - 1 - j"
      using that by (simp add: rev_nth)
    have "point_timestamp (?g ! j) = ((now - int (?n - 1 - j) * ?d) div ?d) * ?d"
      using that by (simp add: generateTimelineData_def Let_def r)
    also have "(now - int (?n - 1 - j) * ?d) div ?d = now div ?d - int (?n - 1 - j)"
      using dpos div_mult_self1 [of ?d now "- int (?n - 1 - j)"] by simp
    finally show ?thesis .
  qed
  have ne: "?g \<noteq> []" using len npos by auto
  have dv: "?d dvd point_timestamp (?g ! 0)"
    using ts [OF npos] by simp
  have step: "point_timestamp (?g ! i) = point_timestamp (?g ! 0) + int i * ?d" if "i < length ?g" for i
  proof -
    from that len have i: "i < ?n" by simp
    have "int (?n - 1 - 0) = int (?n - 1 - i) + int i" using i by simp
    then show ?thesis
      unfolding ts [OF i] ts [OF npos] by (simp add: algebra_simps)
  qed
  show ?thesis
    using ne dv step by (rule inStepI)
qed

lemma countInBucket_timestamps:
  "countInBucket d t data = Some data' \<Longrightarrow> map point_timestamp data' = map point_timestamp data"
  by (induction data arbitrary: data') (auto split: if_splits)

lemma countInBucket_after:
  "\<forall>p \<in> set data. point_timestamp p + d \<le> t \<Longrightarrow> countInBucket d t data = None"
  by (induction data) auto

lemma inStep_last:
  assumes "inStep d data"
  shows "point_timestamp (last data) = point_timestamp (data ! 0) + int (length data - 1) * d"
proof -
  from assms have ne: "data \<noteq> []" by (rule inStepD)
  then have l: "last data = data ! (length data - 1)" by (rule last_conv_nth)
  have "length data - 1 < length data" using ne by simp
  from inStepD(3) [OF assms this] show ?thesis by (simp only: l)
qed

lemma inStep_le_last:
  assumes "inStep d data" and "0 < d" and "p \<in> set data"
  shows "point_timestamp p \<le> point_timestamp (last data)"
proof -
  from assms(3) obtain i where i: "i < length data" "data ! i = p"
    by (auto simp: in_set_conv_nth)
  from inStepD(3) [OF assms(1) i(1)] i(2)
  have "point_timestamp p = point_timestamp (data ! 0) + int i * d" by (simp only:)
  moreover have "int i * d \<le> int (length data - 1) * d"
    using i(1) assms(2) by (intro mult_right_mono) auto
  ultimately show ?thesis using inStep_last [OF assms(1)] by linarith
qed

lemma inStep_drop_append:
  assumes xs: "inStep d xs"
    and ys: "\<forall>k < length ys. point_timestamp (ys ! k) = point_timestamp (last xs) + d + int k * d"
    and m: "m \<le> length ys"
  shows "inStep d (drop m (xs @ ys))"
proof -
  let ?t0 = "point_timestamp (xs ! 0)"
  note ne = inStepD(1) [OF xs] and dv = inStepD(2) [OF xs] and st = inStepD(3) [OF xs]
  have all: "point_timestamp ((xs @ ys) ! i) = ?t0 + int i * d" if "i < length (xs @ ys)" for i
  proof (cases "i < length xs")
    case True
    from st [OF True] True show ?thesis by (simp only: nth_append if_True)
  next
    case False
    then have k: "i - length xs < length ys" using that by simp
    have "point_timestamp ((xs @ ys) ! i) = point_timestamp (ys ! (i - length xs))"
      using False by (simp add: nth_append)
    also have "\<dots> = point_timestamp (last xs) + d + int (i - length xs) * d"
      using ys k by blast
    also have "\<dots> = ?t0 + int (length xs - 1) * d + d + int (i - length xs) * d"
      by (simp only: inStep_last [OF xs])
    also have "\<dots> = ?t0 + (int (length xs - 1) + 1 + int (i - length xs)) * d"
      by (simp add: algebra_simps)
    also have "int (length xs - 1) + 1 + int (i - length xs) = int i"
      using False ne by (cases xs) auto
    finally show ?thesis .
  qed
  have len: "length (drop m (xs @ ys)) = length xs + length ys - m" by simp
  have pos: "0 < length (drop m (xs @ ys))" using m ne by (cases xs) auto
  have nth: "point_timestamp (drop m (xs @ ys) ! i) = ?t0 + int (m + i) * d"
    if "i < length (drop m (xs @ ys))" for i
  proof -
    from that have mi: "m + i < length (xs @ ys)" by simp
    then have "m \<le> length (xs @ ys)" by simp
    then have "drop m (xs @ ys) ! i = (xs @ ys) ! (m + i)" by (rule nth_drop)
    with all [OF mi] show ?thesis by (simp only:)
  qed
  have z: "point_timestamp (drop m (xs @ ys) ! 0) = ?t0 + int m * d"
    using nth [OF pos] by simp
  have dv': "d dvd point_timestamp (drop m (xs @ ys) ! 0)"
    unfolding z using dv by simp
  have step: "point_timestamp (drop m (xs @ ys) ! i) = point_timestamp (drop m (xs @ ys) ! 0) + int i * d"
    if "i < length (drop m (xs @ ys))" for i
    unfolding z nth [OF that] by (simp add: algebra_simps)
  from pos have "drop m (xs @ ys) \<noteq> []" by auto
  then show ?thesis using dv' step by (rule inStepI)
qed


lemma map_upt_nth: "k < n \<Longrightarrow> map f [0..<n] ! k = f k"
  by simp

lemma own_bucket:
  fixes a c d :: int
  assumes "0 < d" and "c \<le> a"
  shows "(c + int k * d \<le> a \<and> a < c + int k * d + d) \<longleftrightarrow> k = nat ((a - c) div d)"
proof
  assume h: "c + int k * d \<le> a \<and> a < c + int k * d + d"
  define r where "r = a - c - int k * d"
  from h have r: "0 \<le> r" "r < d" by (simp_all add: r_def)
  have "a - c = r + int k * d" by (simp add: r_def)
  then have "(a - c) div d = (r + int k * d) div d" by simp
  also have "\<dots> = r div d + int k" using assms(1) by simp
  also have "r div d = 0" using r by (simp add: div_pos_pos_trivial)
  finally show "k = nat ((a - c) div d)" by simp
next
  assume k: "k = nat ((a - c) div d)"
  have nn: "0 \<le> (a - c) div d" using assms by (simp add: pos_imp_zdiv_nonneg_iff)
  with k have ik: "int k = (a - c) div d" by simp
  have "a - c = (a - c) div d * d + (a - c) mod d" by simp
  moreover have "0 \<le> (a - c) mod d" "(a - c) mod d < d" using assms(1) by simp_all
  ultimately show "c + int k * d \<le> a \<and> a < c + int k * d + d"
    unfolding ik by linarith
qed

lemma addAttackToTimeline_late:
  assumes "data \<noteq> []"
    and "countInBucket (getDurationForInterval interval) (attackTimeOf now attack) data = None"
    and "attackTimeOf now attack \<ge> point_timestamp (last data) + getDurationForInterval interval"
  shows "addAttackToTimeline b now interval attack data =
     Inr (let d = getDurationForInterval interval;
              a = attackTimeOf now attack;
              c = point_timestamp (last data) + d;
              n = nat ((a - c) div d)
          in drop (Suc n) (data @ map (\<lambda>k.
               \<lparr> point_timestamp = (c div d + int k) * d,
                 label = formatTimeLabel b interval ((c div d + int k) * d),
                 count = (if (c div d + int k) * d \<le> a \<and> a < (c div d + int k) * d + d then 1 else 0),
                 unit = getUnitForInterval interval \<rparr>) [0..<Suc n]))"
proof -
  have r: "addAttackToTimeline b now interval attack data =
        Inr (appendBuckets b interval (attackTimeOf now attack)
               (point_timestamp (last data) + getDurationForInterval interval) data)"
    using assms by (simp add: addAttackToTimeline_def Let_def)
  show ?thesis
    unfolding r Let_def
    by (simp only: appendBuckets_explicit [OF assms(1) assms(3) refl])
qed

lemma addAttackToTimeline_late_inStep:
  assumes st: "inStep (getDurationForInterval interval) data"
    and late: "attackTimeOf now attack \<ge> point_timestamp (last data) + getDurationForInterval interval"
  shows "addAttackToTimeline b now interval attack data =
     Inr (let d = getDurationForInterval interval;
              a = attackTimeOf now attack;
              c = point_timestamp (last data) + d;
              n = nat ((a - c) div d)
          in drop (Suc n) (data @ map (\<lambda>k.
               \<lparr> point_timestamp = c + int k * d,
                 label = formatTimeLabel b interval (c + int k * d),
                 count = (if k = n then 1 else 0),
                 unit = getUnitForInterval interval \<rparr>) [0..<Suc n]))"
proof -
  let ?d = "getDurationForInterval interval"
  let ?a = "attackTimeOf now attack"
  let ?c = "point_timestamp (last data) + ?d"
  let ?n = "nat ((?a - ?c) div ?d)"
  have dpos: "0 < ?d" by (rule getDuration_pos)
  note ne = inStepD(1) [OF st]
  have "\<forall>p \<in> set data. point_timestamp p + ?d \<le> ?a"
  proof
    fix p assume "p \<in> set data"
    from inStep_le_last [OF st dpos this] late show "point_timestamp p + ?d \<le> ?a" by linarith
  qed
  then have none: "countInBucket ?d ?a data = None" by (rule countInBucket_after)
  have "?d dvd point_timestamp (last data)"
    unfolding inStep_last [OF st] using inStepD(2) [OF st] by simp
  then have "?d dvd ?c" by simp
  then have al: "?c div ?d * ?d = ?c" by (rule dvd_div_mult_self)
  have start: "(?c div ?d + int k) * ?d = ?c + int k * ?d" for k
    using al by (simp add: algebra_simps)
  have own: "((?c + int k * ?d \<le> ?a \<and> ?a < ?c + int k * ?d + ?d)) = (k = ?n)" for k
    by (rule own_bucket [OF dpos late])
  show ?thesis
    unfolding addAttackToTimeline_late [OF ne none late] Let_def
    by (simp only: start own)
qed

lemma addAttackToTimeline_inStep:
  assumes st: "inStep (getDurationForInterval interval) data"
    and r: "addAttackToTimeline b now interval attack data = Inr data'"
  shows "inStep (getDurationForInterval interval) data'"
proof (cases "countInBucket (getDurationForInterval interval) (attackTimeOf now attack) data")
  case (Some counted)
  with r have "data' = counted" by (simp add: addAttackToTimeline_def Let_def)
  with countInBucket_timestamps [OF Some] inStep_timestamps [of data' data] st
  show ?thesis by simp
next
  case None
  let ?d = "getDurationForInterval interval"
  let ?a = "attackTimeOf now attack"
  let ?c = "point_timestamp (last data) + ?d"
  let ?n = "nat ((?a - ?c) div ?d)"
  note ne = inStepD(1) [OF st]
  show ?thesis
  proof (cases "?a \<ge> ?c")
    case True
    let ?new = "map (\<lambda>k. \<lparr> point_timestamp = ?c + int k * ?d,
                 label = formatTimeLabel b interval (?c + int k * ?d),
                 count = (if k = ?n then 1 else 0),
                 unit = getUnitForInterval interval \<rparr>) [0..<Suc ?n]"
    from addAttackToTimeline_late_inStep [OF st True, of b] r
    have d': "data' = drop (Suc ?n) (data @ ?new)" by (simp add: Let_def)
    have "\<forall>k < length ?new. point_timestamp (?new ! k) = point_timestamp (last data) + ?d + int k * ?d"
    proof (intro allI impI)
      fix k assume "k < length ?new"
      then have k: "k < Suc ?n" by simp
      have "?new ! k = \<lparr> point_timestamp = ?c + int k * ?d,
                 label = formatTimeLabel b interval (?c + int k * ?d),
                 count = (if k = ?n then 1 else 0),
                 unit = getUnitForInterval interval \<rparr>"
        using k by (rule map_upt_nth)
      then show "point_timestamp (?new ! k) = point_timestamp (last data) + ?d + int k * ?d"
        by simp
    qed
    moreover have "Suc ?n \<le> length ?new" by simp
    ultimately have "inStep ?d (drop (Suc ?n) (data @ ?new))"
      using st by (intro inStep_drop_append)
    with d' show ?thesis by simp
  next
    case False
    with None r ne have "data' = data" by (simp add: addAttackToTimeline_def Let_def)
    with st show ?thesis by simp
  qed
qed


lemma addAttackToTimeline_late_last:
  assumes st: "inStep (getDurationForInterval interval) data"
    and late: "attackTimeOf now attack \<ge> point_timestamp (last data) + getDurationForInterval interval"
    and r: "addAttackToTimeline b now interval attack data = Inr data'"
  shows "last data' =
      \<lparr> point_timestamp = (attackTimeOf now attack div getDurationForInterval interval)
                             * getDurationForInterval interval,
        label = formatTimeLabel b interval
                  ((attackTimeOf now attack div getDurationForInterval interval) * getDurationForInterval interval),
        count = 1,
        unit = getUnitForInterval interval \<rparr>"
proof -
  let ?d = "getDurationForInterval interval"
  let ?a = "attackTimeOf now attack"
  let ?c = "point_timestamp (last data) + ?d"
  let ?n = "nat ((?a - ?c) div ?d)"
  let ?f = "\<lambda>k. \<lparr> point_timestamp = ?c + int k * ?d,
                 label = formatTimeLabel b interval (?c + int k * ?d),
                 count = (if k = ?n then 1 else 0),
                 unit = getUnitForInterval interval \<rparr>"
  let ?new = "map ?f [0..<Suc ?n]"
  have dpos: "0 < ?d" by (rule getDuration_pos)
  note ne = inStepD(1) [OF st]
  from addAttackToTimeline_late_inStep [OF st late, of b] r
  have d': "data' = drop (Suc ?n) (data @ ?new)" by (simp add: Let_def)
  have newne: "?new \<noteq> []" by simp
  have "Suc ?n < length (data @ ?new)" using ne by (cases data) simp_all
  then have "last (drop (Suc ?n) (data @ ?new)) = last (data @ ?new)" by (rule last_drop)
  also have "\<dots> = last ?new" using newne by (rule last_appendR)
  also have "\<dots> = ?new ! (length ?new - 1)" using newne by (rule last_conv_nth)
  also have "\<dots> = ?new ! ?n" by simp
  also have "\<dots> = ?f ?n" by (rule map_upt_nth) simp
  finally have l: "last data' = ?f ?n" unfolding d' .
  have "?d dvd point_timestamp (last data)"
    unfolding inStep_last [OF st] using inStepD(2) [OF st] by simp
  then have dv: "?d dvd ?c + int ?n * ?d" by simp
  have "?c + int ?n * ?d \<le> ?a \<and> ?a < ?c + int ?n * ?d + ?d"
    using own_bucket [OF dpos late, of ?n] by simp
  then have b1: "?c + int ?n * ?d \<le> ?a" and b2: "?a < ?c + int ?n * ?d + ?d" by simp_all
  from dv obtain q where q: "?c + int ?n * ?d = ?d * q" by (rule dvdE)
  define r where "r = ?a - ?d * q"
  from b1 b2 q have rr: "0 \<le> r" "r < ?d" by (simp_all add: r_def)
  have "?a = r + q * ?d" by (simp add: r_def)
  then have "?a div ?d = (r + q * ?d) div ?d" by simp
  also have "\<dots> = r div ?d + q" using dpos by simp
  also have "r div ?d = 0" using rr by (simp add: div_pos_pos_trivial)
  finally have "?a div ?d * ?d = ?c + int ?n * ?d" using q by (simp add: mult.commute)
  then show ?thesis unfolding l by simp
qed

lemma addAttackEvent_inStep:
  assumes "inStep (getDurationForInterval (timelineInterval st)) (timelineData st)"
    and "addAttackEvent b now ev st = Inr (st', ev')"
  shows "inStep (getDurationForInterval (timelineInterval st')) (timelineData st')"
proof -
  from assms(2) have iv: "timelineInterval st' = timelineInterval st"
    by (auto simp: addAttackEvent_unfold split: sum.splits)
  from addAttackToTimeline_inStep [OF assms(1) addAttackEvent_components(1) [OF assms(2)]]
  show ?thesis by (simp only: iv)
qed

lemma replayEvent_inStep:
  assumes "inStep (getDurationForInterval (timelineInterval st)) (timelineData st)"
    and "replayEvent b now ev st = Inr (st', ev')"
  shows "inStep (getDurationForInterval (timelineInterval st')) (timelineData st')"
proof -
  from assms(2) have iv: "timelineInterval st' = timelineInterval st"
    by (auto simp: replayEvent_def split: sum.splits)
  from addAttackToTimeline_inStep [OF assms(1) replayEvent_components(1) [OF assms(2)]]
  show ?thesis by (simp only: iv)
qed

lemma ingestLive_inStep:
  "inStep (getDurationForInterval (timelineInterval st)) (timelineData st) \<Longrightarrow>
   ingestLive b xs st = Inr st' \<Longrightarrow>
   inStep (getDurationForInterval (timelineInterval st')) (timelineData st')"
proof (induction xs arbitrary: st)
  case Nil
  then show ?case by simp
next
  case (Cons x xs)
  obtain now ev where x: "x = (now, ev)" by (cases x)
  from Cons.prems(2) obtain st1 ev1 where a: "addAttackEvent b now ev st = Inr (st1, ev1)"
    and rest: "ingestLive b xs st1 = Inr st'"
    by (auto simp: x split: sum.splits)
  from Cons.IH [OF addAttackEvent_inStep [OF Cons.prems(1) a] rest] show ?case .
qed

lemma replayEvents_inStep:
  "inStep (getDurationForInterval (timelineInterval st)) (timelineData st) \<Longrightarrow>
   replayEvents b now evs st = Inr st' \<Longrightarrow>
   inStep (getDurationForInterval (timelineInterval st')) (timelineData st')"
proof (induction evs arbitrary: st)
  case Nil
  then show ?case by simp
next
  case (Cons ev evs)
  from Cons.prems(2) obtain st1 ev1 where a: "replayEvent b now ev st = Inr (st1, ev1)"
    and rest: "replayEvents b now evs st1 = Inr st'"
    by (auto split: sum.splits)
  from Cons.IH [OF replayEvent_inStep [OF Cons.prems(1) a] rest] show ?case .
qed

lemma addAttackToTimeline_old:
  assumes "data \<noteq> []" and "\<forall>p \<in> set data. attackTimeOf now attack < point_timestamp p"
  shows "addAttackToTimeline b now interval attack data = Inr data"
proof -
  from assms(2) have none: "countInBucket (getDurationForInterval interval) (attackTimeOf now attack) data = None"
    by (rule countInBucket_before)
  from assms(1) have "last data \<in> set data" by simp
  with assms(2) have "attackTimeOf now attack < point_timestamp (last data)" by blast
  with getDuration_pos [of interval]
  have "\<not> attackTimeOf now attack \<ge> point_timestamp (last data) + getDurationForInterval interval"
    by linarith
  with assms(1) none show ?thesis
    by (simp add: addAttackToTimeline_def Let_def)
qed

lemma heatmap_counts_one:
  assumes "addAttackToHeatmap b now attack hm = Inr hm'" and "length hm = 24"
  shows "sum_list (map attacks hm') = sum_list (map attacks hm) + 1"
proof -
  let ?t = "if truthy_num (timestamp attack) then the (timestamp attack) else now"
  let ?h = "nat (getHours b ?t)"
  from getHours_range [of b ?t] have "?h < 24" by linarith
  then have h: "?h < length (map attacks hm)"
    using assms(2) by simp
  have "sum_list ((map attacks hm)[?h := attacks (hm ! ?h) + 1])
        = sum_list (map attacks hm) + (attacks (hm ! ?h) + 1) - map attacks hm ! ?h"
    using h by (rule sum_list_update)
  also have "map attacks hm ! ?h = attacks (hm ! ?h)" using h by simp
  finally show ?thesis
    unfolding addAttackToHeatmap_attacks [OF assms] by simp
qed

lemma replayEvent_old:
  assumes "timelineData st \<noteq> []" and "length (heatmapData st) = 24"
    and "\<forall>p \<in> set (timelineData st). attackTimeOf now ev < point_timestamp p"
  shows "\<exists>st' ev'. replayEvent b now ev st = Inr (st', ev')
           \<and> timelineData st' = timelineData st
           \<and> sum_list (map attacks (heatmapData st')) = sum_list (map attacks (heatmapData st)) + 1
           \<and> protocolStats st' = updateProtocolStats (protocol ev) (protocolStats st)"
proof -
  from replayEvent_total [OF assms(1,2), of b now ev]
  obtain st' ev' where r: "replayEvent b now ev st = Inr (st', ev')" by blast
  from replayEvent_components(1) [OF r] addAttackToTimeline_old [OF assms(1,3), of b "timelineInterval st"]
  have t: "timelineData st' = timelineData st" by simp
  from heatmap_counts_one [OF replayEvent_components(2) [OF r] assms(2)]
  have h: "sum_list (map attacks (heatmapData st')) = sum_list (map attacks (heatmapData st)) + 1" .
  from r t h replayEvent_components(4) [OF r] show ?thesis by blast
qed


lemma countInBucket_counted:
  "countInBucket d t data = Some data' \<Longrightarrow>
     \<exists>k < length data. point_timestamp (data ! k) \<le> t \<and> t < point_timestamp (data ! k) + d
        \<and> data' = data[k := (data ! k)\<lparr> count := count (data ! k) + 1 \<rparr>]"
proof (induction data arbitrary: data')
  case Nil
  then show ?case by simp
next
  case (Cons p ps)
  show ?case
  proof (cases "t \<ge> point_timestamp p \<and> t < point_timestamp p + d")
    case True
    with Cons.prems have "data' = (p # ps)[0 := ((p # ps) ! 0)\<lparr> count := count ((p # ps) ! 0) + 1 \<rparr>]"
      by auto
    with True show ?thesis by (intro exI [of _ 0]) simp
  next
    case False
    with Cons.prems obtain rest where rest: "countInBucket d t ps = Some rest" and d': "data' = p # rest"
      by auto
    from Cons.IH [OF rest] obtain k where k: "k < length ps"
      "point_timestamp (ps ! k) \<le> t" "t < point_timestamp (ps ! k) + d"
      "rest = ps[k := (ps ! k)\<lparr> count := count (ps ! k) + 1 \<rparr>]" by blast
    then show ?thesis using d' by (intro exI [of _ "Suc k"]) simp
  qed
qed

lemma countInBucket_finds:
  "\<exists>p \<in> set data. point_timestamp p \<le> t \<and> t < point_timestamp p + d \<Longrightarrow>
     \<exists>counted. countInBucket d t data = Some counted"
  by (induction data) auto

lemma addAttackToTimeline_inside:
  assumes st: "inStep (getDurationForInterval interval) data"
    and lo: "point_timestamp (hd data) \<le> attackTimeOf now attack"
    and hi: "attackTimeOf now attack < point_timestamp (last data) + getDurationForInterval interval"
  shows "\<exists>k < length data.
           point_timestamp (data ! k) \<le> attackTimeOf now attack
           \<and> attackTimeOf now attack < point_timestamp (data ! k) + getDurationForInterval interval
           \<and> addAttackToTimeline b now interval attack data
               = Inr (data[k := (data ! k)\<lparr> count := count (data ! k) + 1 \<rparr>])"
proof -
  let ?d = "getDurationForInterval interval"
  let ?a = "attackTimeOf now attack"
  let ?t0 = "point_timestamp (data ! 0)"
  let ?k = "nat ((?a - ?t0) div ?d)"
  have dpos: "0 < ?d" by (rule getDuration_pos)
  note ne = inStepD(1) [OF st]
  then have hd: "hd data = data ! 0" by (rule hd_conv_nth)
  from lo have lo': "?t0 \<le> ?a" by (simp only: hd)
  from own_bucket [OF dpos lo', of ?k]
  have own: "?t0 + int ?k * ?d \<le> ?a" "?a < ?t0 + int ?k * ?d + ?d" by simp_all
  have k: "?k < length data"
  proof (rule ccontr)
    assume "\<not> ?k < length data"
    then have "int (length data - 1) + 1 \<le> int ?k" using ne by (cases data) auto
    then have "(int (length data - 1) + 1) * ?d \<le> int ?k * ?d"
      using dpos by (intro mult_right_mono) auto
    then have "?t0 + int (length data - 1) * ?d + ?d \<le> ?t0 + int ?k * ?d"
      by (simp add: algebra_simps)
    with own(1) hi show False unfolding inStep_last [OF st] by linarith
  qed
  have ts: "point_timestamp (data ! ?k) = ?t0 + int ?k * ?d"
    using k by (rule inStepD(3) [OF st])
  have "data ! ?k \<in> set data" using k by simp
  with own ts have "\<exists>p \<in> set data. point_timestamp p \<le> ?a \<and> ?a < point_timestamp p + ?d"
    by (intro bexI [of _ "data ! ?k"]) simp_all
  then obtain counted where c: "countInBucket ?d ?a data = Some counted"
    using countInBucket_finds by blast
  then have r: "addAttackToTimeline b now interval attack data = Inr counted"
    by (simp add: addAttackToTimeline_def Let_def)
  from countInBucket_counted [OF c] r show ?thesis by blast
qed

text \<open>
  Claim C5: for every sequence of ingested events the timeline holds exactly the number
  of buckets of its granularity (24 for hours, 60 for minutes, 60 for seconds): an
  event beyond the end of the last bucket has new buckets pushed one step at a time,
  as many being shifted out at the front, and an event before the window is dropped
  from the timeline only, so the length never changes.

  The generated timeline has that length and is in step. A run of live or of replayed
  events from a generated timeline and a heatmap of 24 slots never fails, keeps the
  length and stays in step. One call keeps the length of any timeline that is not
  empty. An event inside a bucket adds one to the count of that bucket and changes
  nothing else; when the timeline is in step, every event from the start of the first
  bucket to the end of the last is inside a bucket. For an event at or beyond the end
  of the last bucket, the loop pushes \<open>n + 1\<close> buckets, \<open>n\<close> being the number of whole durations between that end and the
  event, and shifts \<open>n + 1\<close> buckets out at the front; the pushed buckets start on the
  successive multiples of the duration from the end of the last bucket on, and each
  counts 1 when it holds the event and 0 otherwise. When the timeline is in step, the
  pushed buckets follow the last one duration by duration, all counting 0 but the last
  pushed, which is the event's own bucket and counts 1, and the result is in step. An
  event before every bucket changes nothing in the timeline; replayed, it is still
  counted by the heatmap and the protocol counters.
\<close>

theorem timeline_fixed_length:
  "length (generateTimelineData b0 t0 interval) = (if interval = ''1m'' \<or> interval = ''1h'' then 60 else 24)
   \<and> (timelineData st = generateTimelineData b0 t0 (timelineInterval st) \<and> length (heatmapData st) = 24 \<longrightarrow>
        (\<exists>st'. ingestLive b xs st = Inr st' \<and> timelineInterval st' = timelineInterval st
            \<and> length (timelineData st') = getPoints (timelineInterval st')
            \<and> inStep (getDurationForInterval (timelineInterval st')) (timelineData st')))
   \<and> (timelineData st = generateTimelineData b0 t0 (timelineInterval st) \<and> length (heatmapData st) = 24 \<longrightarrow>
        (\<exists>st'. replayEvents b now evs st = Inr st' \<and> timelineInterval st' = timelineInterval st
            \<and> length (timelineData st') = getPoints (timelineInterval st')
            \<and> inStep (getDurationForInterval (timelineInterval st')) (timelineData st')))
   \<and> (data \<noteq> [] \<longrightarrow>
        (\<exists>data'. addAttackToTimeline b now interval attack data = Inr data' \<and> length data' = length data))
   \<and> (countInBucket (getDurationForInterval interval) (attackTimeOf now attack) data = Some counted \<longrightarrow>
        addAttackToTimeline b now interval attack data = Inr counted
        \<and> (\<exists>k < length data.
              point_timestamp (data ! k) \<le> attackTimeOf now attack
              \<and> attackTimeOf now attack < point_timestamp (data ! k) + getDurationForInterval interval
              \<and> counted = data[k := (data ! k)\<lparr> count := count (data ! k) + 1 \<rparr>]))
   \<and> (inStep (getDurationForInterval interval) data
        \<and> point_timestamp (hd data) \<le> attackTimeOf now attack
        \<and> attackTimeOf now attack < point_timestamp (last data) + getDurationForInterval interval \<longrightarrow>
        (\<exists>k < length data.
           point_timestamp (data ! k) \<le> attackTimeOf now attack
           \<and> attackTimeOf now attack < point_timestamp (data ! k) + getDurationForInterval interval
           \<and> addAttackToTimeline b now interval attack data
               = Inr (data[k := (data ! k)\<lparr> count := count (data ! k) + 1 \<rparr>])))
   \<and> (data \<noteq> []
        \<and> countInBucket (getDurationForInterval interval) (attackTimeOf now attack) data = None
        \<and> attackTimeOf now attack \<ge> point_timestamp (last data) + getDurationForInterval interval \<longrightarrow>
        addAttackToTimeline b now interval attack data =
          Inr (let d = getDurationForInterval interval;
                   a = attackTimeOf now attack;
                   c = point_timestamp (last data) + d;
                   n = nat ((a - c) div d)
               in drop (Suc n) (data @ map (\<lambda>k.
                    \<lparr> point_timestamp = (c div d + int k) * d,
                      label = formatTimeLabel b interval ((c div d + int k) * d),
                      count = (if (c div d + int k) * d \<le> a \<and> a < (c div d + int k) * d + d then 1 else 0),
                      unit = getUnitForInterval interval \<rparr>) [0..<Suc n])))
   \<and> (inStep (getDurationForInterval interval) data
        \<and> attackTimeOf now attack \<ge> point_timestamp (last data) + getDurationForInterval interval \<longrightarrow>
        (\<exists>data'. addAttackToTimeline b now interval attack data = Inr data'
           \<and> data' = (let d = getDurationForInterval interval;
                          a = attackTimeOf now attack;
                          c = point_timestamp (last data) + d;
                          n = nat ((a - c) div d)
                      in drop (Suc n) (data @ map (\<lambda>k.
                           \<lparr> point_timestamp = c + int k * d,
                             label = formatTimeLabel b interval (c + int k * d),
                             count = (if k = n then 1 else 0),
                             unit = getUnitForInterval interval \<rparr>) [0..<Suc n]))
           \<and> last data' =
                \<lparr> point_timestamp = (attackTimeOf now attack div getDurationForInterval interval)
                                       * getDurationForInterval interval,
                  label = formatTimeLabel b interval
                     ((attackTimeOf now attack div getDurationForInterval interval)
                        * getDurationForInterval interval),
                  count = 1,
                  unit = getUnitForInterval interval \<rparr>
           \<and> inStep (getDurationForInterval interval) data'))
   \<and> (data \<noteq> [] \<and> (\<forall>p \<in> set data. attackTimeOf now attack < point_timestamp p) \<longrightarrow>
        addAttackToTimeline b now interval attack data = Inr data)
   \<and> (timelineData st \<noteq> [] \<and> length (heatmapData st) = 24
        \<and> (\<forall>p \<in> set (timelineData st). attackTimeOf now attack < point_timestamp p) \<longrightarrow>
        (\<exists>st' ev'. replayEvent b now attack st = Inr (st', ev')
           \<and> timelineData st' = timelineData st
           \<and> sum_list (map attacks (heatmapData st')) = sum_list (map attacks (heatmapData st)) + 1
           \<and> protocolStats st' = updateProtocolStats (protocol attack) (protocolStats st)))"
proof -
  have gen: "length (generateTimelineData b0 t0 interval) = (if interval = ''1m'' \<or> interval = ''1h'' then 60 else 24)"
    by (simp only: generateTimelineData_length getPoints_values)
  have live: "timelineData st = generateTimelineData b0 t0 (timelineInterval st) \<and> length (heatmapData st) = 24 \<longrightarrow>
        (\<exists>st'. ingestLive b xs st = Inr st' \<and> timelineInterval st' = timelineInterval st
            \<and> length (timelineData st') = getPoints (timelineInterval st')
            \<and> inStep (getDurationForInterval (timelineInterval st')) (timelineData st'))"
  proof
    assume a: "timelineData st = generateTimelineData b0 t0 (timelineInterval st) \<and> length (heatmapData st) = 24"
    then have eq: "timelineData st = generateTimelineData b0 t0 (timelineInterval st)"
      and hl: "length (heatmapData st) = 24" by simp_all
    from eq have len: "length (timelineData st) = getPoints (timelineInterval st)"
      by (simp add: generateTimelineData_length)
    then have ne: "timelineData st \<noteq> []" by (auto simp: getPoints_def split: if_splits)
    have ins: "inStep (getDurationForInterval (timelineInterval st)) (timelineData st)"
      by (simp only: eq generateTimelineData_inStep)
    from ingestLive_total [OF ne hl, of b xs] obtain st' where
      r: "ingestLive b xs st = Inr st'"
      and l: "length (timelineData st') = length (timelineData st)"
      and i: "timelineInterval st' = timelineInterval st" by blast
    from l len i have l': "length (timelineData st') = getPoints (timelineInterval st')" by simp
    note s = ingestLive_inStep [OF ins r]
    show "\<exists>st'. ingestLive b xs st = Inr st' \<and> timelineInterval st' = timelineInterval st
            \<and> length (timelineData st') = getPoints (timelineInterval st')
            \<and> inStep (getDurationForInterval (timelineInterval st')) (timelineData st')"
      by (rule exI [of _ st']) (rule conjI r i l' s)+
  qed
  have replay: "timelineData st = generateTimelineData b0 t0 (timelineInterval st) \<and> length (heatmapData st) = 24 \<longrightarrow>
        (\<exists>st'. replayEvents b now evs st = Inr st' \<and> timelineInterval st' = timelineInterval st
            \<and> length (timelineData st') = getPoints (timelineInterval st')
            \<and> inStep (getDurationForInterval (timelineInterval st')) (timelineData st'))"
  proof
    assume a: "timelineData st = generateTimelineData b0 t0 (timelineInterval st) \<and> length (heatmapData st) = 24"
    then have eq: "timelineData st = generateTimelineData b0 t0 (timelineInterval st)"
      and hl: "length (heatmapData st) = 24" by simp_all
    from eq have len: "length (timelineData st) = getPoints (timelineInterval st)"
      by (simp add: generateTimelineData_length)
    then have ne: "timelineData st \<noteq> []" by (auto simp: getPoints_def split: if_splits)
    have ins: "inStep (getDurationForInterval (timelineInterval st)) (timelineData st)"
      by (simp only: eq generateTimelineData_inStep)
    from replayEvents_total [OF ne hl, of b now evs] obtain st' where
      r: "replayEvents b now evs st = Inr st'"
      and l: "length (timelineData st') = length (timelineData st)"
      and i: "timelineInterval st' = timelineInterval st" by blast
    from l len i have l': "length (timelineData st') = getPoints (timelineInterval st')" by simp
    note s = replayEvents_inStep [OF ins r]
    show "\<exists>st'. replayEvents b now evs st = Inr st' \<and> timelineInterval st' = timelineInterval st
            \<and> length (timelineData st') = getPoints (timelineInterval st')
            \<and> inStep (getDurationForInterval (timelineInterval st')) (timelineData st')"
      by (rule exI [of _ st']) (rule conjI r i l' s)+
  qed
  have one: "data \<noteq> [] \<longrightarrow>
        (\<exists>data'. addAttackToTimeline b now interval attack data = Inr data' \<and> length data' = length data)"
    using addAttackToTimeline_total by blast
  have inside: "countInBucket (getDurationForInterval interval) (attackTimeOf now attack) data = Some counted \<longrightarrow>
        addAttackToTimeline b now interval attack data = Inr counted
        \<and> (\<exists>k < length data.
              point_timestamp (data ! k) \<le> attackTimeOf now attack
              \<and> attackTimeOf now attack < point_timestamp (data ! k) + getDurationForInterval interval
              \<and> counted = data[k := (data ! k)\<lparr> count := count (data ! k) + 1 \<rparr>])"
  proof
    assume c: "countInBucket (getDurationForInterval interval) (attackTimeOf now attack) data = Some counted"
    then have r: "addAttackToTimeline b now interval attack data = Inr counted"
      by (simp add: addAttackToTimeline_def Let_def)
    from r countInBucket_counted [OF c]
    show "addAttackToTimeline b now interval attack data = Inr counted
        \<and> (\<exists>k < length data.
              point_timestamp (data ! k) \<le> attackTimeOf now attack
              \<and> attackTimeOf now attack < point_timestamp (data ! k) + getDurationForInterval interval
              \<and> counted = data[k := (data ! k)\<lparr> count := count (data ! k) + 1 \<rparr>])"
      by (rule conjI)
  qed
  have inside_step: "inStep (getDurationForInterval interval) data
        \<and> point_timestamp (hd data) \<le> attackTimeOf now attack
        \<and> attackTimeOf now attack < point_timestamp (last data) + getDurationForInterval interval \<longrightarrow>
        (\<exists>k < length data.
           point_timestamp (data ! k) \<le> attackTimeOf now attack
           \<and> attackTimeOf now attack < point_timestamp (data ! k) + getDurationForInterval interval
           \<and> addAttackToTimeline b now interval attack data
               = Inr (data[k := (data ! k)\<lparr> count := count (data ! k) + 1 \<rparr>]))"
  proof
    assume a: "inStep (getDurationForInterval interval) data
        \<and> point_timestamp (hd data) \<le> attackTimeOf now attack
        \<and> attackTimeOf now attack < point_timestamp (last data) + getDurationForInterval interval"
    then have a1: "inStep (getDurationForInterval interval) data"
      and a2: "point_timestamp (hd data) \<le> attackTimeOf now attack"
      and a3: "attackTimeOf now attack < point_timestamp (last data) + getDurationForInterval interval"
      by simp_all
    show "\<exists>k < length data.
           point_timestamp (data ! k) \<le> attackTimeOf now attack
           \<and> attackTimeOf now attack < point_timestamp (data ! k) + getDurationForInterval interval
           \<and> addAttackToTimeline b now interval attack data
               = Inr (data[k := (data ! k)\<lparr> count := count (data ! k) + 1 \<rparr>])"
      using a1 a2 a3 by (rule addAttackToTimeline_inside)
  qed
  have beyond: "data \<noteq> []
        \<and> countInBucket (getDurationForInterval interval) (attackTimeOf now attack) data = None
        \<and> attackTimeOf now attack \<ge> point_timestamp (last data) + getDurationForInterval interval \<longrightarrow>
        addAttackToTimeline b now interval attack data =
          Inr (let d = getDurationForInterval interval;
                   a = attackTimeOf now attack;
                   c = point_timestamp (last data) + d;
                   n = nat ((a - c) div d)
               in drop (Suc n) (data @ map (\<lambda>k.
                    \<lparr> point_timestamp = (c div d + int k) * d,
                      label = formatTimeLabel b interval ((c div d + int k) * d),
                      count = (if (c div d + int k) * d \<le> a \<and> a < (c div d + int k) * d + d then 1 else 0),
                      unit = getUnitForInterval interval \<rparr>) [0..<Suc n]))"
  proof
    assume a: "data \<noteq> []
        \<and> countInBucket (getDurationForInterval interval) (attackTimeOf now attack) data = None
        \<and> attackTimeOf now attack \<ge> point_timestamp (last data) + getDurationForInterval interval"
    then have a1: "data \<noteq> []"
      and a2: "countInBucket (getDurationForInterval interval) (attackTimeOf now attack) data = None"
      and a3: "attackTimeOf now attack \<ge> point_timestamp (last data) + getDurationForInterval interval"
      by simp_all
    show "addAttackToTimeline b now interval attack data =
          Inr (let d = getDurationForInterval interval;
                   a = attackTimeOf now attack;
                   c = point_timestamp (last data) + d;
                   n = nat ((a - c) div d)
               in drop (Suc n) (data @ map (\<lambda>k.
                    \<lparr> point_timestamp = (c div d + int k) * d,
                      label = formatTimeLabel b interval ((c div d + int k) * d),
                      count = (if (c div d + int k) * d \<le> a \<and> a < (c div d + int k) * d + d then 1 else 0),
                      unit = getUnitForInterval interval \<rparr>) [0..<Suc n]))"
      using a1 a2 a3 by (rule addAttackToTimeline_late)
  qed
  have beyond_step: "inStep (getDurationForInterval interval) data
        \<and> attackTimeOf now attack \<ge> point_timestamp (last data) + getDurationForInterval interval \<longrightarrow>
        (\<exists>data'. addAttackToTimeline b now interval attack data = Inr data'
           \<and> data' = (let d = getDurationForInterval interval;
                          a = attackTimeOf now attack;
                          c = point_timestamp (last data) + d;
                          n = nat ((a - c) div d)
                      in drop (Suc n) (data @ map (\<lambda>k.
                           \<lparr> point_timestamp = c + int k * d,
                             label = formatTimeLabel b interval (c + int k * d),
                             count = (if k = n then 1 else 0),
                             unit = getUnitForInterval interval \<rparr>) [0..<Suc n]))
           \<and> last data' =
                \<lparr> point_timestamp = (attackTimeOf now attack div getDurationForInterval interval)
                                       * getDurationForInterval interval,
                  label = formatTimeLabel b interval
                     ((attackTimeOf now attack div getDurationForInterval interval)
                        * getDurationForInterval interval),
                  count = 1,
                  unit = getUnitForInterval interval \<rparr>
           \<and> inStep (getDurationForInterval interval) data')"
  proof
    assume a: "inStep (getDurationForInterval interval) data
        \<and> attackTimeOf now attack \<ge> point_timestamp (last data) + getDurationForInterval interval"
    then have st: "inStep (getDurationForInterval interval) data"
      and late: "attackTimeOf now attack \<ge> point_timestamp (last data) + getDurationForInterval interval"
      by simp_all
    note r = addAttackToTimeline_late_inStep [OF st late, of b]
    note l = addAttackToTimeline_late_last [OF st late r]
    note s = addAttackToTimeline_inStep [OF st r]
    show "\<exists>data'. addAttackToTimeline b now interval attack data = Inr data'
           \<and> data' = (let d = getDurationForInterval interval;
                          a = attackTimeOf now attack;
                          c = point_timestamp (last data) + d;
                          n = nat ((a - c) div d)
                      in drop (Suc n) (data @ map (\<lambda>k.
                           \<lparr> point_timestamp = c + int k * d,
                             label = formatTimeLabel b interval (c + int k * d),
                             count = (if k = n then 1 else 0),
                             unit = getUnitForInterval interval \<rparr>) [0..<Suc n]))
           \<and> last data' =
                \<lparr> point_timestamp = (attackTimeOf now attack div getDurationForInterval interval)
                                       * getDurationForInterval interval,
                  label = formatTimeLabel b interval
                     ((attackTimeOf now attack div getDurationForInterval interval)
                        * getDurationForInterval interval),
                  count = 1,
                  unit = getUnitForInterval interval \<rparr>
           \<and> inStep (getDurationForInterval interval) data'"
      by (rule exI, rule conjI [OF r], rule conjI [OF refl], rule conjI [OF l s])
  qed
  have old: "data \<noteq> [] \<and> (\<forall>p \<in> set data. attackTimeOf now attack < point_timestamp p) \<longrightarrow>
        addAttackToTimeline b now interval attack data = Inr data"
    using addAttackToTimeline_old by blast
  have only: "timelineData st \<noteq> [] \<and> length (heatmapData st) = 24
        \<and> (\<forall>p \<in> set (timelineData st). attackTimeOf now attack < point_timestamp p) \<longrightarrow>
        (\<exists>st' ev'. replayEvent b now attack st = Inr (st', ev')
           \<and> timelineData st' = timelineData st
           \<and> sum_list (map attacks (heatmapData st')) = sum_list (map attacks (heatmapData st)) + 1
           \<and> protocolStats st' = updateProtocolStats (protocol attack) (protocolStats st))"
  proof
    assume a: "timelineData st \<noteq> [] \<and> length (heatmapData st) = 24
        \<and> (\<forall>p \<in> set (timelineData st). attackTimeOf now attack < point_timestamp p)"
    then have a1: "timelineData st \<noteq> []" and a2: "length (heatmapData st) = 24"
      and a3: "\<forall>p \<in> set (timelineData st). attackTimeOf now attack < point_timestamp p" by simp_all
    show "\<exists>st' ev'. replayEvent b now attack st = Inr (st', ev')
           \<and> timelineData st' = timelineData st
           \<and> sum_list (map attacks (heatmapData st')) = sum_list (map attacks (heatmapData st)) + 1
           \<and> protocolStats st' = updateProtocolStats (protocol attack) (protocolStats st)"
      using a1 a2 a3 by (rule replayEvent_old)
  qed
  show ?thesis
    by (rule conjI gen live replay one inside inside_step beyond beyond_step old only)+
qed


theorem timeline_fixed_length_witness:
  "length (generateTimelineData utcBrowser 0 ''24h'') = 24
   \<and> (\<exists>st'. ingestLive utcBrowser [(7200005, blankEvent)] readyDashboard = Inr st'
          \<and> length (timelineData st') = 24
          \<and> inStep 3600000 (timelineData st'))
   \<and> (\<exists>st'. replayEvents utcBrowser 0 [blankEvent\<lparr> timestamp := Some 10800005 \<rparr>] readyDashboard = Inr st'
          \<and> length (timelineData st') = 24
          \<and> inStep 3600000 (timelineData st'))
   \<and> addAttackToTimeline utcBrowser 0 ''24h'' (blankEvent\<lparr> timestamp := Some 1800000 \<rparr>)
          [\<lparr> point_timestamp = 0, label = [], count = 0, unit = ''hour'' \<rparr>]
        = Inr [\<lparr> point_timestamp = 0, label = [], count = 1, unit = ''hour'' \<rparr>]
   \<and> addAttackToTimeline utcBrowser 0 ''24h'' (blankEvent\<lparr> timestamp := Some 1800000 \<rparr>)
          [\<lparr> point_timestamp = - 3600000, label = [], count = 4, unit = ''hour'' \<rparr>,
           \<lparr> point_timestamp = 0, label = [], count = 2, unit = ''hour'' \<rparr>,
           \<lparr> point_timestamp = 3600000, label = [], count = 5, unit = ''hour'' \<rparr>]
        = Inr [\<lparr> point_timestamp = - 3600000, label = [], count = 4, unit = ''hour'' \<rparr>,
               \<lparr> point_timestamp = 0, label = [], count = 3, unit = ''hour'' \<rparr>,
               \<lparr> point_timestamp = 3600000, label = [], count = 5, unit = ''hour'' \<rparr>]
   \<and> addAttackToTimeline utcBrowser 0 ''24h'' (blankEvent\<lparr> timestamp := Some 10800005 \<rparr>)
          [\<lparr> point_timestamp = - 3600000, label = [], count = 4, unit = ''hour'' \<rparr>,
           \<lparr> point_timestamp = 0, label = [], count = 2, unit = ''hour'' \<rparr>,
           \<lparr> point_timestamp = 3600000, label = [], count = 5, unit = ''hour'' \<rparr>]
        = Inr [\<lparr> point_timestamp = 3600000, label = [], count = 5, unit = ''hour'' \<rparr>,
               \<lparr> point_timestamp = 7200000, label = [], count = 0, unit = ''hour'' \<rparr>,
               \<lparr> point_timestamp = 10800000, label = [], count = 1, unit = ''hour'' \<rparr>]
   \<and> addAttackToTimeline utcBrowser 0 ''24h'' (blankEvent\<lparr> timestamp := Some 7200005 \<rparr>)
          [\<lparr> point_timestamp = 0, label = [], count = 0, unit = ''hour'' \<rparr>]
        = Inr [\<lparr> point_timestamp = 7200000, label = [], count = 1, unit = ''hour'' \<rparr>]
   \<and> addAttackToTimeline utcBrowser 0 ''24h'' (blankEvent\<lparr> timestamp := Some 7200005 \<rparr>)
          [\<lparr> point_timestamp = 86400000, label = [], count = 0, unit = ''hour'' \<rparr>]
        = Inr [\<lparr> point_timestamp = 86400000, label = [], count = 0, unit = ''hour'' \<rparr>]
   \<and> (\<exists>st' ev'. replayEvent utcBrowser 0 (blankEvent\<lparr> timestamp := Some 7200005 \<rparr>)
                     (readyDashboard\<lparr> timelineData :=
                        [\<lparr> point_timestamp = 86400000, label = [], count = 0, unit = ''hour'' \<rparr>] \<rparr>)
                   = Inr (st', ev')
          \<and> timelineData st' = [\<lparr> point_timestamp = 86400000, label = [], count = 0, unit = ''hour'' \<rparr>]
          \<and> sum_list (map attacks (heatmapData st')) = sum_list (map attacks (heatmapData readyDashboard)) + 1)"
proof -
  let ?in = "blankEvent\<lparr> timestamp := Some 1800000 \<rparr>"
  let ?late = "blankEvent\<lparr> timestamp := Some 10800005 \<rparr>"
  let ?old = "blankEvent\<lparr> timestamp := Some 7200005 \<rparr>"
  let ?p0 = "\<lparr> point_timestamp = 0, label = [], count = 0, unit = ''hour'' \<rparr>"
  let ?p0' = "\<lparr> point_timestamp = 0, label = [], count = 1, unit = ''hour'' \<rparr>"
  let ?p1 = "\<lparr> point_timestamp = 86400000, label = [], count = 0, unit = ''hour'' \<rparr>"
  let ?d3 = "[\<lparr> point_timestamp = - 3600000, label = [], count = 4, unit = ''hour'' \<rparr>,
              \<lparr> point_timestamp = 0, label = [], count = 2, unit = ''hour'' \<rparr>,
              \<lparr> point_timestamp = 3600000, label = [], count = 5, unit = ''hour'' \<rparr>]"
  let ?st1 = "readyDashboard\<lparr> timelineData := [?p1] \<rparr>"
  note A = timeline_fixed_length [where ?b0.0 = utcBrowser and ?t0.0 = 0 and interval = "''24h''"
      and st = readyDashboard and b = utcBrowser and xs = "[(7200005, blankEvent)]" and now = 0
      and evs = "[?late]" and data = ?d3 and attack = ?late and counted = "[]"]
  note B = timeline_fixed_length [where ?b0.0 = utcBrowser and ?t0.0 = 0 and interval = "''24h''"
      and st = ?st1 and b = utcBrowser and xs = "[]" and now = 0
      and evs = "[]" and data = "[?p1]" and attack = ?old and counted = "[]"]
  note C = timeline_fixed_length [where ?b0.0 = utcBrowser and ?t0.0 = 0 and interval = "''24h''"
      and st = readyDashboard and b = utcBrowser and xs = "[]" and now = 0
      and evs = "[]" and data = "[?p0]" and attack = ?in and counted = "[?p0']"]
  have iv: "timelineInterval readyDashboard = ''24h''"
    by (simp add: readyDashboard_def newDashboard_def)
  have d24: "getDurationForInterval ''24h'' = 3600000"
    by (simp add: getDurationForInterval_def)
  have h0: "timelineData readyDashboard = generateTimelineData utcBrowser 0 (timelineInterval readyDashboard)
            \<and> length (heatmapData readyDashboard) = 24"
    by (simp add: readyDashboard_def newDashboard_def setupHeatmapData_length)
  have at_in: "attackTimeOf 0 ?in = 1800000" and at_late: "attackTimeOf 0 ?late = 10800005"
    and at_old: "attackTimeOf 0 ?old = 7200005"
    by (simp_all add: attackTimeOf_def truthy_num_def)
  have c1: "length (generateTimelineData utcBrowser 0 ''24h'') = 24"
    using A [THEN conjunct1] by simp
  from A [THEN conjunct2, THEN conjunct1] h0
  obtain st1 where l1: "ingestLive utcBrowser [(7200005, blankEvent)] readyDashboard = Inr st1"
    and l2: "timelineInterval st1 = timelineInterval readyDashboard"
    and l3: "length (timelineData st1) = getPoints (timelineInterval st1)"
    and l4: "inStep (getDurationForInterval (timelineInterval st1)) (timelineData st1)" by blast
  have c2: "\<exists>st'. ingestLive utcBrowser [(7200005, blankEvent)] readyDashboard = Inr st'
          \<and> length (timelineData st') = 24 \<and> inStep 3600000 (timelineData st')"
    using l1 l2 l3 l4 iv d24 by (simp add: getPoints_def)
  from A [THEN conjunct2, THEN conjunct2, THEN conjunct1] h0
  obtain st2 where r1: "replayEvents utcBrowser 0 [?late] readyDashboard = Inr st2"
    and r2: "timelineInterval st2 = timelineInterval readyDashboard"
    and r3: "length (timelineData st2) = getPoints (timelineInterval st2)"
    and r4: "inStep (getDurationForInterval (timelineInterval st2)) (timelineData st2)" by blast
  have c3: "\<exists>st'. replayEvents utcBrowser 0 [?late] readyDashboard = Inr st'
          \<and> length (timelineData st') = 24 \<and> inStep 3600000 (timelineData st')"
    using r1 r2 r3 r4 iv d24 by (simp add: getPoints_def)
  have hin: "countInBucket (getDurationForInterval ''24h'') (attackTimeOf 0 ?in) [?p0] = Some [?p0']"
    by (simp add: at_in d24)
  have c4: "addAttackToTimeline utcBrowser 0 ''24h'' ?in [?p0] = Inr [?p0']"
    using C [THEN conjunct2, THEN conjunct2, THEN conjunct2, THEN conjunct2, THEN conjunct1] hin
    by blast
  note E = timeline_fixed_length [where ?b0.0 = utcBrowser and ?t0.0 = 0 and interval = "''24h''"
      and st = readyDashboard and b = utcBrowser and xs = "[]" and now = 0
      and evs = "[]" and data = ?d3 and attack = ?in and counted = "[]"]
  have hins: "inStep (getDurationForInterval ''24h'') ?d3
        \<and> point_timestamp (hd ?d3) \<le> attackTimeOf 0 ?in
        \<and> attackTimeOf 0 ?in < point_timestamp (last ?d3) + getDurationForInterval ''24h''"
    by (simp add: at_in d24 inStep_def)
  from E [THEN conjunct2, THEN conjunct2, THEN conjunct2, THEN conjunct2, THEN conjunct2,
          THEN conjunct1] hins
  obtain k where k: "k < length ?d3"
    and kb: "point_timestamp (?d3 ! k) \<le> attackTimeOf 0 ?in"
            "attackTimeOf 0 ?in < point_timestamp (?d3 ! k) + getDurationForInterval ''24h''"
    and kr: "addAttackToTimeline utcBrowser 0 ''24h'' ?in ?d3
               = Inr (?d3[k := (?d3 ! k)\<lparr> count := count (?d3 ! k) + 1 \<rparr>])"
    by blast
  have k1: "k = Suc 0"
    using k kb by (auto simp: at_in d24 less_Suc_eq)
  have c4s: "addAttackToTimeline utcBrowser 0 ''24h'' ?in ?d3 =
      Inr [\<lparr> point_timestamp = - 3600000, label = [], count = 4, unit = ''hour'' \<rparr>,
           \<lparr> point_timestamp = 0, label = [], count = 3, unit = ''hour'' \<rparr>,
           \<lparr> point_timestamp = 3600000, label = [], count = 5, unit = ''hour'' \<rparr>]"
    using kr by (simp add: k1)
  have hstep: "inStep (getDurationForInterval ''24h'') ?d3
        \<and> attackTimeOf 0 ?late \<ge> point_timestamp (last ?d3) + getDurationForInterval ''24h''"
    by (simp add: at_late d24 inStep_def)
  from A [THEN conjunct2, THEN conjunct2, THEN conjunct2, THEN conjunct2, THEN conjunct2,
          THEN conjunct2, THEN conjunct2, THEN conjunct1] hstep
  obtain data' where s1: "addAttackToTimeline utcBrowser 0 ''24h'' ?late ?d3 = Inr data'"
    and s2: "data' = (let d = getDurationForInterval ''24h'';
                          a = attackTimeOf 0 ?late;
                          c = point_timestamp (last ?d3) + d;
                          n = nat ((a - c) div d)
                      in drop (Suc n) (?d3 @ map (\<lambda>k.
                           \<lparr> point_timestamp = c + int k * d,
                             label = formatTimeLabel utcBrowser ''24h'' (c + int k * d),
                             count = (if k = n then 1 else 0),
                             unit = getUnitForInterval ''24h'' \<rparr>) [0..<Suc n]))"
    by blast
  have n1: "nat ((10800005 - (3600000 + 3600000)) div 3600000) = Suc 0" by simp
  have s3: "data' = [\<lparr> point_timestamp = 3600000, label = [], count = 5, unit = ''hour'' \<rparr>,
               \<lparr> point_timestamp = 7200000, label = [], count = 0, unit = ''hour'' \<rparr>,
               \<lparr> point_timestamp = 10800000, label = [], count = 1, unit = ''hour'' \<rparr>]"
    unfolding s2 Let_def at_late d24
    by (simp add: getUnitForInterval_def formatTimeLabel_def utcBrowser_def)
  have c5: "addAttackToTimeline utcBrowser 0 ''24h'' ?late ?d3 =
      Inr [\<lparr> point_timestamp = 3600000, label = [], count = 5, unit = ''hour'' \<rparr>,
               \<lparr> point_timestamp = 7200000, label = [], count = 0, unit = ''hour'' \<rparr>,
               \<lparr> point_timestamp = 10800000, label = [], count = 1, unit = ''hour'' \<rparr>]"
    using s1 by (simp only: s3)
  note D = timeline_fixed_length [where ?b0.0 = utcBrowser and ?t0.0 = 0 and interval = "''24h''"
      and st = readyDashboard and b = utcBrowser and xs = "[]" and now = 0
      and evs = "[]" and data = "[?p0]" and attack = ?old and counted = "[]"]
  have hgen: "[?p0] \<noteq> []
        \<and> countInBucket (getDurationForInterval ''24h'') (attackTimeOf 0 ?old) [?p0] = None
        \<and> attackTimeOf 0 ?old \<ge> point_timestamp (last [?p0]) + getDurationForInterval ''24h''"
    by (simp add: at_old d24)
  from D [THEN conjunct2, THEN conjunct2, THEN conjunct2, THEN conjunct2, THEN conjunct2,
          THEN conjunct2, THEN conjunct1] hgen
  have g1: "addAttackToTimeline utcBrowser 0 ''24h'' ?old [?p0] =
          Inr (let d = getDurationForInterval ''24h'';
                   a = attackTimeOf 0 ?old;
                   c = point_timestamp (last [?p0]) + d;
                   n = nat ((a - c) div d)
               in drop (Suc n) ([?p0] @ map (\<lambda>k.
                    \<lparr> point_timestamp = (c div d + int k) * d,
                      label = formatTimeLabel utcBrowser ''24h'' ((c div d + int k) * d),
                      count = (if (c div d + int k) * d \<le> a \<and> a < (c div d + int k) * d + d then 1 else 0),
                      unit = getUnitForInterval ''24h'' \<rparr>) [0..<Suc n]))"
    by blast
  have c5g: "addAttackToTimeline utcBrowser 0 ''24h'' ?old [?p0] =
      Inr [\<lparr> point_timestamp = 7200000, label = [], count = 1, unit = ''hour'' \<rparr>]"
    unfolding g1 Let_def at_old d24
    by (simp add: getUnitForInterval_def formatTimeLabel_def utcBrowser_def)
  have hold: "[?p1] \<noteq> [] \<and> (\<forall>p \<in> set [?p1]. attackTimeOf 0 ?old < point_timestamp p)"
    by (simp add: at_old)
  have c6: "addAttackToTimeline utcBrowser 0 ''24h'' ?old [?p1] = Inr [?p1]"
    using B [THEN conjunct2, THEN conjunct2, THEN conjunct2, THEN conjunct2, THEN conjunct2,
          THEN conjunct2, THEN conjunct2, THEN conjunct2, THEN conjunct1] hold by blast
  have honly: "timelineData ?st1 \<noteq> [] \<and> length (heatmapData ?st1) = 24
        \<and> (\<forall>p \<in> set (timelineData ?st1). attackTimeOf 0 ?old < point_timestamp p)"
    using h0 by (simp add: at_old)
  from B [THEN conjunct2, THEN conjunct2, THEN conjunct2, THEN conjunct2, THEN conjunct2,
          THEN conjunct2, THEN conjunct2, THEN conjunct2, THEN conjunct2] honly
  obtain st3 ev3 where o1: "replayEvent utcBrowser 0 ?old ?st1 = Inr (st3, ev3)"
    and o2: "timelineData st3 = timelineData ?st1"
    and o3: "sum_list (map attacks (heatmapData st3)) = sum_list (map attacks (heatmapData ?st1)) + 1"
    by blast
  have c7: "\<exists>st' ev'. replayEvent utcBrowser 0 ?old ?st1 = Inr (st', ev')
          \<and> timelineData st' = [?p1]
          \<and> sum_list (map attacks (heatmapData st')) = sum_list (map attacks (heatmapData readyDashboard)) + 1"
    using o1 o2 o3 by simp
  show ?thesis
    by (rule conjI c1 c2 c3 c4 c4s c5 c5g c6 c7)+
qed


end
